theory Spec2Isabelle
  imports Main "HOL-Library.Word"
begin

unbundle bit_operations_syntax

section \<open>Timer wheel: data model\<close>

text \<open>
  Pointers are 64-bit addresses, \<open>0\<close> is the null pointer. A timer handle is the
  address of its \<open>twentry_t\<close>. A member or method that the source names with a
  trailing underscore (\<open>slice_\<close>, \<open>next_slice_\<close>) is written here with \<open>_m\<close> in its
  place (\<open>slice_m\<close>, \<open>next_slice_m\<close>), and the local variable \<open>slice\<close> is written
  \<open>slice'\<close>.
\<close>

type_synonym ptr = "64 word"

record twentry =
  timer_id_m :: "32 word"
  timeout_m :: "32 word"
  periodic_m :: bool
  valid_m :: bool
  ctxt_m :: ptr
  cb_m :: ptr
  nspins_m :: "16 word"
  slice_m :: "32 word"
  next_m :: ptr
  prev_m :: ptr

text \<open>
  The wheel object. The array \<open>twheel_\<close> of \<open>tw_slice_t\<close> is split into its two
  fields, \<open>slice_head_\<close> and \<open>slock_\<close>, each indexed by the slice number. The slab
  of entries is seen through its contract: the set of elements handed out by
  \<open>alloc\<close> and not yet returned by \<open>free\<close>. \<open>twentries\<close> is the memory holding the
  entries.
\<close>

record twheel =
  twentry_slab_m :: "ptr set"
  slice_intvl_m :: "64 word"
  thread_safe_m :: bool
  nslices_m :: "32 word"
  slice_head_m :: "32 word \<Rightarrow> ptr"
  slock_m :: "32 word \<Rightarrow> bool"
  curr_slice_m :: "32 word"
  num_entries_m :: "32 word"
  twentries :: "ptr \<Rightarrow> twentry"

subsection \<open>Construction\<close>

text \<open>
  \<open>factory\<close> gets zeroed memory from \<open>SDK_CALLOC\<close> and the constructor \<open>twheel()\<close> is
  empty, so a field of the object is zero until \<open>init\<close> writes it. \<open>twheel_obj\<close> is the
  object that a failed \<open>init\<close> leaves behind, with the fields the destructor reads:
  \<open>twentry_slab_\<close> is null, or points to a live slab, or still points to a slab that
  \<open>slab::destroy\<close> has already destroyed and freed; \<open>obj_twheel\<close> says whether the slice
  array \<open>twheel_\<close> is non-null.
\<close>

datatype slab_ref = NullSlab | LiveSlab | DestroyedSlab

record twheel_obj =
  obj_twentry_slab :: slab_ref
  obj_thread_safe :: bool
  obj_nslices :: "32 word"
  obj_twheel :: bool

text \<open>
  What goes wrong in the destructor: \<open>slab::destroy\<close> on a slab that is already
  destroyed (its destructor runs on freed memory and the memory is freed a second
  time), and \<open>SDK_SPINLOCK_DESTROY\<close> on the slots of a null slice array.
\<close>

datatype fault = DoubleFree | NullSliceArray

text \<open>
  \<open>twheel::init\<close>. The two allocations (the slab object, the slice array) succeed or
  fail as the flags \<open>slab_ok\<close> and \<open>slices_ok\<close> say; \<open>SDK_CALLOC\<close> zeroes the slice
  array, so every head is null; \<open>m\<close> is the content of the memory the entries will
  live in. \<open>Inr w\<close> is \<open>SDK_RET_OK\<close> with the wheel \<open>w\<close>; \<open>Inl obj\<close> is \<open>SDK_RET_OOM\<close>
  and \<open>obj\<close> the state of the object. When the slab cannot be made, \<open>init\<close> returns
  before it writes any other field. When the slice array cannot be made,
  \<open>thread_safe_\<close> and \<open>nslices_\<close> are already written, and \<open>init\<close> destroys the slab
  without resetting \<open>twentry_slab_\<close>.
\<close>

definition init :: "bool \<Rightarrow> bool \<Rightarrow> (ptr \<Rightarrow> twentry) \<Rightarrow> 64 word \<Rightarrow> 32 word \<Rightarrow> bool \<Rightarrow> twheel_obj + twheel" where
  "init slab_ok slices_ok m slice_intvl wheel_duration thread_safe =
     (if \<not> slab_ok
      then Inl \<lparr> obj_twentry_slab = NullSlab, obj_thread_safe = False, obj_nslices = 0,
                 obj_twheel = False \<rparr>
      else if \<not> slices_ok
      then Inl \<lparr> obj_twentry_slab = DestroyedSlab, obj_thread_safe = thread_safe,
                 obj_nslices = ucast (ucast wheel_duration div slice_intvl :: 64 word),
                 obj_twheel = False \<rparr>
      else Inr \<lparr> twentry_slab_m = {},
                 slice_intvl_m = slice_intvl,
                 thread_safe_m = thread_safe,
                 nslices_m = ucast (ucast wheel_duration div slice_intvl :: 64 word),
                 slice_head_m = (\<lambda>_. 0),
                 slock_m = (\<lambda>_. False),
                 curr_slice_m = 0,
                 num_entries_m = 0,
                 twentries = m \<rparr>)"

text \<open>
  \<open>twheel::~twheel\<close> on such an object: \<open>None\<close> when it runs to its end. It destroys the
  slab when \<open>twentry_slab_\<close> is not null, then, on a thread-safe wheel, destroys the
  spinlock of each of the \<open>nslices_\<close> slots, then frees the slice array (\<open>SDK_FREE\<close> of
  null does nothing).
\<close>

definition twheel_destructor :: "twheel_obj \<Rightarrow> fault option" where
  "twheel_destructor obj =
     (if obj_twentry_slab obj = DestroyedSlab then Some DoubleFree
      else if obj_thread_safe obj \<and> obj_nslices obj \<noteq> 0 \<and> \<not> obj_twheel obj
      then Some NullSliceArray
      else None)"

text \<open>
  \<open>twheel::factory\<close>. \<open>Inr None\<close> is the null wheel, \<open>Inr (Some w)\<close> the wheel \<open>w\<close>;
  \<open>mem_ok\<close> is the allocation of the wheel object. When \<open>init\<close> fails, \<open>factory\<close> runs
  the destructor on the object before it frees it and returns null; \<open>Inl f\<close> is the
  fault \<open>f\<close> of that destructor.
\<close>

definition factory :: "bool \<Rightarrow> bool \<Rightarrow> bool \<Rightarrow> (ptr \<Rightarrow> twentry) \<Rightarrow> 64 word \<Rightarrow> 32 word \<Rightarrow> bool \<Rightarrow> fault + twheel option" where
  "factory mem_ok slab_ok slices_ok m slice_intvl wheel_duration thread_safe =
     (if slice_intvl = 0 \<or> wheel_duration = 0 \<or> ucast wheel_duration \<le> slice_intvl then Inr None
      else if \<not> mem_ok then Inr None
      else case init slab_ok slices_ok m slice_intvl wheel_duration thread_safe of
             Inl obj \<Rightarrow> (case twheel_destructor obj of
                           Some f \<Rightarrow> Inl f
                         | None \<Rightarrow> Inr None)
           | Inr w \<Rightarrow> Inr (Some w))"

subsection \<open>Slice locks\<close>

text \<open>
  The model follows one thread. A spinlock that is held is then held by this very
  thread, and \<open>SDK_SPINLOCK_LOCK\<close> on it spins for ever: the self-deadlock is the
  error \<open>SelfDeadlock\<close>. A null callback pointer that is called is \<open>NullCallback\<close>.
\<close>

datatype error = SelfDeadlock | NullCallback

definition TWHEEL_LOCK_SLICE :: "twheel \<Rightarrow> 32 word \<Rightarrow> error + twheel" where
  "TWHEEL_LOCK_SLICE w slice' =
     (if thread_safe_m w
      then (if slock_m w slice' then Inl SelfDeadlock
            else Inr (w\<lparr>slock_m := (slock_m w)(slice' := True)\<rparr>))
      else Inr w)"

definition TWHEEL_UNLOCK_SLICE :: "twheel \<Rightarrow> 32 word \<Rightarrow> twheel" where
  "TWHEEL_UNLOCK_SLICE w slice' =
     (if thread_safe_m w then w\<lparr>slock_m := (slock_m w)(slice' := False)\<rparr> else w)"

subsection \<open>Slice selection and entry initialisation\<close>

text \<open>
  \<open>TWHEEL_DELAY_DELETE\<close>, and \<open>twheel::next_slice_\<close> with the C++ integer types written
  out: the product and the remainder are 64-bit, \<open>rem\<close> and \<open>num_slices\<close> are
  truncated to 32 bits, the sums are 32-bit. Division by zero is undefined in the
  source; it does not occur on a wheel that \<open>factory\<close> built, and the theorems
  below assume a non-zero interval and a non-zero number of slices.
\<close>

definition TWHEEL_DELAY_DELETE :: "64 word" where
  "TWHEEL_DELAY_DELETE = 2000"

definition next_slice_m :: "twheel \<Rightarrow> 64 word \<Rightarrow> 32 word \<Rightarrow> bool \<Rightarrow> 32 word" where
  "next_slice_m w timeout entry_slice update =
     (let rem = (ucast (timeout mod (ucast (nslices_m w) * slice_intvl_m w)) :: 32 word);
          num_slices = (ucast ((ucast rem :: 64 word) div slice_intvl_m w) :: 32 word);
          num_slices = (if num_slices = 0 then 1 else num_slices);
          slice' = (curr_slice_m w + num_slices) mod nslices_m w
      in if update \<and> slice' = entry_slice then (slice' + 1) mod nslices_m w else slice')"

text \<open>\<open>twheel::init_twentry_\<close>: every field of the entry is written; \<open>nspins_\<close> is 16-bit.\<close>

definition init_twentry_m ::
  "twheel \<Rightarrow> ptr \<Rightarrow> 32 word \<Rightarrow> 64 word \<Rightarrow> bool \<Rightarrow> ptr \<Rightarrow> ptr \<Rightarrow> 32 word \<Rightarrow> twheel" where
  "init_twentry_m w twentry timer_id timeout periodic ctxt cb slice' =
     w\<lparr>twentries := (twentries w)(twentry :=
          \<lparr> timer_id_m = timer_id,
            timeout_m = ucast timeout,
            periodic_m = periodic,
            valid_m = False,
            ctxt_m = ctxt,
            cb_m = cb,
            nspins_m = ucast (timeout div (ucast (nslices_m w) * slice_intvl_m w)),
            slice_m = slice',
            next_m = 0,
            prev_m = 0 \<rparr>)\<rparr>"

subsection \<open>The intrusive lists\<close>

definition set_next :: "(ptr \<Rightarrow> twentry) \<Rightarrow> ptr \<Rightarrow> ptr \<Rightarrow> (ptr \<Rightarrow> twentry)" where
  "set_next m p q = m(p := (m p)\<lparr>next_m := q\<rparr>)"

definition set_prev :: "(ptr \<Rightarrow> twentry) \<Rightarrow> ptr \<Rightarrow> ptr \<Rightarrow> (ptr \<Rightarrow> twentry)" where
  "set_prev m p q = m(p := (m p)\<lparr>prev_m := q\<rparr>)"

definition set_valid :: "(ptr \<Rightarrow> twentry) \<Rightarrow> ptr \<Rightarrow> bool \<Rightarrow> (ptr \<Rightarrow> twentry)" where
  "set_valid m p b = m(p := (m p)\<lparr>valid_m := b\<rparr>)"

text \<open>\<open>twheel::insert_timer_\<close>: push at the head of the list of the entry's slice.\<close>

definition insert_timer_m :: "twheel \<Rightarrow> ptr \<Rightarrow> twheel" where
  "insert_timer_m w twentry =
     (let cur_entry = slice_head_m w (slice_m (twentries w twentry));
          m1 = set_next (twentries w) twentry cur_entry;
          m2 = (if cur_entry \<noteq> 0 then set_prev m1 cur_entry twentry else m1);
          hd' = (slice_head_m w)(slice_m (m2 twentry) := twentry);
          m3 = set_valid m2 twentry True
      in w\<lparr>slice_head_m := hd', twentries := m3, num_entries_m := num_entries_m w + 1\<rparr>)"

text \<open>\<open>twheel::unlink_timer_\<close>; each field is read where the source reads it.\<close>

definition unlink_timer_m :: "twheel \<Rightarrow> ptr \<Rightarrow> twheel" where
  "unlink_timer_m w twentry =
     (if twentry = 0 then w
      else
        let m0 = twentries w;
            m1 = (if next_m (m0 twentry) \<noteq> 0
                  then set_prev m0 (next_m (m0 twentry)) (prev_m (m0 twentry)) else m0)
        in if prev_m (m1 twentry) = 0
           then w\<lparr>slice_head_m := (slice_head_m w)(slice_m (m1 twentry) := next_m (m1 twentry)),
                  twentries := m1,
                  num_entries_m := num_entries_m w - 1\<rparr>
           else w\<lparr>twentries := set_next m1 (prev_m (m1 twentry)) (next_m (m1 twentry)),
                  num_entries_m := num_entries_m w - 1\<rparr>)"

text \<open>\<open>twheel::remove_timer_\<close>.\<close>

definition remove_timer_m :: "twheel \<Rightarrow> ptr \<Rightarrow> twheel" where
  "remove_timer_m w twentry =
     (if \<not> valid_m (twentries w twentry) then w
      else let w1 = unlink_timer_m w twentry
           in w1\<lparr>twentries := set_valid (twentries w1) twentry False\<rparr>)"

text \<open>\<open>twheel::free_to_slab_\<close>: the element goes back to the slab.\<close>

definition free_to_slab_m :: "twheel \<Rightarrow> ptr \<Rightarrow> twheel" where
  "free_to_slab_m w timer = w\<lparr>twentry_slab_m := twentry_slab_m w - {timer}\<rparr>"

text \<open>
  \<open>twheel::last_timer_in_slice\<close> follows \<open>next_\<close> from the head to the last entry. On
  a cyclic list the loop does not end: the result is \<open>None\<close>.
\<close>

partial_function (option) last_timer_from :: "(ptr \<Rightarrow> twentry) \<Rightarrow> ptr \<Rightarrow> ptr option" where
  "last_timer_from m last' =
     (if last' \<noteq> 0 \<and> next_m (m last') \<noteq> 0 then last_timer_from m (next_m (m last'))
      else Some last')"

definition last_timer_in_slice :: "twheel \<Rightarrow> 32 word \<Rightarrow> ptr option" where
  "last_timer_in_slice w slice' = last_timer_from (twentries w) (slice_head_m w slice')"

subsection \<open>Rescheduling and delayed deletion\<close>

text \<open>\<open>twheel::upd_timer_\<close>, called by \<open>tick\<close> with the lock of the current slice held.\<close>

definition upd_timer_m :: "twheel \<Rightarrow> ptr \<Rightarrow> 64 word \<Rightarrow> bool \<Rightarrow> error + twheel" where
  "upd_timer_m w twentry timeout periodic =
     (let w1 = remove_timer_m w twentry;
          slice' = next_slice_m w1 timeout (slice_m (twentries w1 twentry)) True
      in case TWHEEL_LOCK_SLICE w1 slice' of
           Inl e \<Rightarrow> Inl e
         | Inr w2 \<Rightarrow>
             let w3 = init_twentry_m w2 twentry (timer_id_m (twentries w2 twentry)) timeout
                        periodic (ctxt_m (twentries w2 twentry)) (cb_m (twentries w2 twentry)) slice';
                 w4 = insert_timer_m w3 twentry
             in Inr (TWHEEL_UNLOCK_SLICE w4 slice'))"

text \<open>\<open>twheel::delay_delete_\<close>: the entry is re-initialised with a null context and a
  null callback, linked about two seconds ahead, and marked invalid.\<close>

definition delay_delete_m :: "twheel \<Rightarrow> ptr \<Rightarrow> error + twheel" where
  "delay_delete_m w twentry =
     (let slice' = next_slice_m w TWHEEL_DELAY_DELETE (slice_m (twentries w twentry)) True
      in case TWHEEL_LOCK_SLICE w slice' of
           Inl e \<Rightarrow> Inl e
         | Inr w1 \<Rightarrow>
             let w2 = init_twentry_m w1 twentry (timer_id_m (twentries w1 twentry))
                        TWHEEL_DELAY_DELETE False 0 0 slice';
                 w3 = insert_timer_m w2 twentry;
                 w4 = w3\<lparr>twentries := set_valid (twentries w3) twentry False\<rparr>
             in Inr (TWHEEL_UNLOCK_SLICE w4 slice'))"

subsection \<open>The public operations\<close>

text \<open>
  \<open>twheel::add_timer\<close>. The pointer \<open>a\<close> is what the slab's \<open>alloc\<close> returns: null, or
  an element that was not in use.
\<close>

definition add_timer ::
  "twheel \<Rightarrow> ptr \<Rightarrow> 32 word \<Rightarrow> 64 word \<Rightarrow> ptr \<Rightarrow> ptr \<Rightarrow> bool \<Rightarrow> 64 word \<Rightarrow> error + (ptr \<times> twheel)" where
  "add_timer w a timer_id timeout ctxt cb periodic initial_delay =
     (let slice' = next_slice_m w (initial_delay + timeout) 0 False
      in if a = 0 then Inr (0, w)
         else
           let w0 = w\<lparr>twentry_slab_m := insert a (twentry_slab_m w)\<rparr>;
               w1 = init_twentry_m w0 a timer_id timeout periodic ctxt cb slice'
           in case TWHEEL_LOCK_SLICE w1 (slice_m (twentries w1 a)) of
                Inl e \<Rightarrow> Inl e
              | Inr w2 \<Rightarrow>
                  let w3 = insert_timer_m w2 a
                  in Inr (a, TWHEEL_UNLOCK_SLICE w3 (slice_m (twentries w3 a))))"

text \<open>
  \<open>twheel::del_timer\<close>. The loop that re-reads \<open>slice_\<close> after taking the lock guards
  against another thread moving the entry; with one thread it leaves at its first
  pass.
\<close>

definition del_timer :: "twheel \<Rightarrow> ptr \<Rightarrow> error + (ptr \<times> twheel)" where
  "del_timer w timer =
     (if timer = 0 then Inr (0, w)
      else
        let ctxt = ctxt_m (twentries w timer);
            slice' = slice_m (twentries w timer)
        in case TWHEEL_LOCK_SLICE w slice' of
             Inl e \<Rightarrow> Inl e
           | Inr w1 \<Rightarrow>
               if \<not> valid_m (twentries w1 timer)
               then Inr (ctxt, TWHEEL_UNLOCK_SLICE w1 slice')
               else
                 let w2 = remove_timer_m w1 timer;
                     w3 = TWHEEL_UNLOCK_SLICE w2 slice'
                 in case delay_delete_m w3 timer of
                      Inl e \<Rightarrow> Inl e
                    | Inr w4 \<Rightarrow> Inr (ctxt, w4))"

text \<open>\<open>twheel::get_timeout_remaining\<close>: 32-bit slice arithmetic, 64-bit result.\<close>

definition get_timeout_remaining :: "twheel \<Rightarrow> ptr \<Rightarrow> 64 word" where
  "get_timeout_remaining w timer =
     (if timer = 0 then 0
      else
        let twentry = twentries w timer
        in ucast (nspins_m twentry) * (ucast (nslices_m w) * slice_intvl_m w) +
           ucast ((slice_m twentry - curr_slice_m w + nslices_m w) mod nslices_m w) * slice_intvl_m w)"

text \<open>\<open>twheel::upd_timer_ctxt\<close>.\<close>

definition upd_timer_ctxt :: "twheel \<Rightarrow> ptr \<Rightarrow> ptr \<Rightarrow> ptr \<times> twheel" where
  "upd_timer_ctxt w timer ctxt =
     (if timer = 0 then (0, w)
      else (timer, w\<lparr>twentries := (twentries w)(timer := (twentries w timer)\<lparr>ctxt_m := ctxt\<rparr>)\<rparr>))"

text \<open>\<open>twheel::upd_timer\<close>: the lock of the new slice is taken while the lock of the
  entry's slice is held.\<close>

definition upd_timer :: "twheel \<Rightarrow> ptr \<Rightarrow> 64 word \<Rightarrow> bool \<Rightarrow> ptr \<Rightarrow> error + (ptr \<times> twheel)" where
  "upd_timer w timer timeout periodic ctxt =
     (if timer = 0 then Inr (0, w)
      else
        let entry_slice = slice_m (twentries w timer)
        in case TWHEEL_LOCK_SLICE w entry_slice of
             Inl e \<Rightarrow> Inl e
           | Inr w1 \<Rightarrow>
               if \<not> valid_m (twentries w1 timer)
               then Inr (timer, TWHEEL_UNLOCK_SLICE w1 entry_slice)
               else
                 let w2 = remove_timer_m w1 timer;
                     slice' = next_slice_m w2 timeout entry_slice True
                 in case TWHEEL_LOCK_SLICE w2 slice' of
                      Inl e \<Rightarrow> Inl e
                    | Inr w3 \<Rightarrow>
                        let w4 = init_twentry_m w3 timer (timer_id_m (twentries w3 timer)) timeout
                                   periodic ctxt (cb_m (twentries w3 timer)) slice';
                            w5 = insert_timer_m w4 timer;
                            w6 = TWHEEL_UNLOCK_SLICE w5 slice'
                        in Inr (timer, TWHEEL_UNLOCK_SLICE w6 entry_slice))"

subsection \<open>Driving the wheel\<close>

text \<open>
  A callback is foreign code that may call back into the wheel. The table \<open>cbs\<close>
  gives, for each function pointer stored in \<open>cb_\<close>, what the call
  \<open>cb(timer, timer_id, ctxt)\<close> does to the wheel.
\<close>

type_synonym callbacks = "ptr \<Rightarrow> ptr \<Rightarrow> 32 word \<Rightarrow> ptr \<Rightarrow> twheel \<Rightarrow> error + twheel"

text \<open>
  One pass through the body of the inner \<open>while (twentry)\<close> loop of \<open>twheel::tick\<close>:
  the result is the entry to visit next (\<open>prev_entry\<close>) and the new state. A delay-deleted
  entry is unlinked and returned to the slab; an entry with spins left loses one;
  otherwise the callback runs, and a periodic entry that is still valid is
  rescheduled, a one-shot entry that is still valid goes to delayed deletion.
\<close>

definition tick_entry :: "callbacks \<Rightarrow> twheel \<Rightarrow> ptr \<Rightarrow> error + (ptr \<times> twheel)" where
  "tick_entry cbs w twentry =
     (if \<not> valid_m (twentries w twentry) then
        let prev_entry = prev_m (twentries w twentry);
            w1 = unlink_timer_m w twentry
        in Inr (prev_entry, free_to_slab_m w1 twentry)
      else if nspins_m (twentries w twentry) \<noteq> 0 then
        let w1 = w\<lparr>twentries := (twentries w)(twentry :=
                     (twentries w twentry)\<lparr>nspins_m := nspins_m (twentries w twentry) - 1\<rparr>)\<rparr>
        in Inr (prev_m (twentries w1 twentry), w1)
      else
        let prev_entry = prev_m (twentries w twentry)
        in if cb_m (twentries w twentry) = 0 then Inl NullCallback
           else case cbs (cb_m (twentries w twentry)) twentry
                         (timer_id_m (twentries w twentry)) (ctxt_m (twentries w twentry)) w of
                  Inl e \<Rightarrow> Inl e
                | Inr w1 \<Rightarrow>
                    if periodic_m (twentries w1 twentry) then
                      (if valid_m (twentries w1 twentry) then
                         (case upd_timer_m w1 twentry (ucast (timeout_m (twentries w1 twentry))) True of
                            Inl e \<Rightarrow> Inl e
                          | Inr w2 \<Rightarrow> Inr (prev_entry, w2))
                       else Inr (prev_entry, w1))
                    else
                      (if valid_m (twentries w1 twentry) then
                         (case delay_delete_m (remove_timer_m w1 twentry) twentry of
                            Inl e \<Rightarrow> Inl e
                          | Inr w3 \<Rightarrow> Inr (prev_entry, w3))
                       else Inr (prev_entry, w1)))"

text \<open>
  The inner loop of \<open>twheel::tick\<close>. It follows \<open>prev_\<close> pointers that callbacks and
  rescheduling may rewrite, so it need not end: \<open>None\<close> is the run that never returns.
\<close>

partial_function (option) tick_walk :: "callbacks \<Rightarrow> twheel \<Rightarrow> ptr \<Rightarrow> (error + twheel) option" where
  "tick_walk cbs w twentry =
     (if twentry = 0 then Some (Inr w)
      else case tick_entry cbs w twentry of
             Inl e \<Rightarrow> Some (Inl e)
           | Inr (prev_entry, w') \<Rightarrow> tick_walk cbs w' prev_entry)"

declare last_timer_from.simps [code]
declare tick_walk.simps [code]

text \<open>
  The outer \<open>do ... while (--nslices)\<close> loop: with \<open>nslices \<ge> 1\<close> on entry the body
  runs \<open>nslices\<close> times.
\<close>

fun tick_slices :: "callbacks \<Rightarrow> nat \<Rightarrow> twheel \<Rightarrow> (error + twheel) option" where
  "tick_slices cbs 0 w = Some (Inr w)"
| "tick_slices cbs (Suc n) w =
     (case TWHEEL_LOCK_SLICE w (curr_slice_m w) of
        Inl e \<Rightarrow> Some (Inl e)
      | Inr w1 \<Rightarrow>
          (case last_timer_in_slice w1 (curr_slice_m w1) of
             None \<Rightarrow> None
           | Some twentry \<Rightarrow>
               (case tick_walk cbs w1 twentry of
                  None \<Rightarrow> None
                | Some (Inl e) \<Rightarrow> Some (Inl e)
                | Some (Inr w2) \<Rightarrow>
                    let w3 = TWHEEL_UNLOCK_SLICE w2 (curr_slice_m w2);
                        w4 = w3\<lparr>curr_slice_m := (curr_slice_m w3 + 1) mod nslices_m w3\<rparr>
                    in tick_slices cbs n w4)))"

text \<open>\<open>twheel::tick\<close>.\<close>

definition tick :: "callbacks \<Rightarrow> twheel \<Rightarrow> 32 word \<Rightarrow> (error + twheel) option" where
  "tick cbs w msecs_elapsed =
     (if ucast msecs_elapsed < slice_intvl_m w then Some (Inr w)
      else tick_slices cbs (unat (ucast ((ucast msecs_elapsed :: 64 word) div slice_intvl_m w) :: 32 word)) w)"

subsection \<open>Well-formed wheels and the linkage invariant\<close>

text \<open>
  What \<open>factory\<close> establishes and no operation changes: a non-zero interval, at
  least one slice, \<open>N \<cdot> g\<close> below \<open>2^32\<close> (it is at most the 32-bit wheel
  duration), and the current slice inside the ring.
\<close>

definition wheel_ok :: "twheel \<Rightarrow> bool" where
  "wheel_ok w \<longleftrightarrow>
     slice_intvl_m w \<noteq> 0 \<and> nslices_m w \<noteq> 0 \<and>
     unat (nslices_m w) * unat (slice_intvl_m w) < 2 ^ 32 \<and>
     curr_slice_m w < nslices_m w"

text \<open>
  \<open>dlist m pr p xs\<close>: following \<open>next_\<close> from \<open>p\<close> visits exactly the entries \<open>xs\<close> and
  ends at null, and every \<open>prev_\<close> points to the entry before (\<open>pr\<close> for the first).
\<close>

primrec dlist :: "(ptr \<Rightarrow> twentry) \<Rightarrow> ptr \<Rightarrow> ptr \<Rightarrow> ptr list \<Rightarrow> bool" where
  "dlist m pr p [] \<longleftrightarrow> p = 0"
| "dlist m pr p (x # xs) \<longleftrightarrow>
     p = x \<and> x \<noteq> 0 \<and> prev_m (m x) = pr \<and> dlist m x (next_m (m x)) xs"

text \<open>
  \<open>linked w sl\<close>: \<open>sl i\<close> is the content of the list of slice \<open>i\<close>. Each list is
  well-formed and holds entries whose \<open>slice_\<close> is \<open>i\<close>; the elements that the slab
  has handed out are exactly the linked ones; \<open>num_entries_\<close> is the number of linked
  entries, as the 32-bit counter it is.
\<close>

definition total_linked :: "twheel \<Rightarrow> (32 word \<Rightarrow> ptr list) \<Rightarrow> nat" where
  "total_linked w sl = (\<Sum>i | i < nslices_m w. length (sl i))"

definition linked :: "twheel \<Rightarrow> (32 word \<Rightarrow> ptr list) \<Rightarrow> bool" where
  "linked w sl \<longleftrightarrow>
     (\<forall>i. i < nslices_m w \<longrightarrow>
        dlist (twentries w) 0 (slice_head_m w i) (sl i) \<and> distinct (sl i) \<and>
        (\<forall>x \<in> set (sl i). slice_m (twentries w x) = i)) \<and>
     (\<forall>i. \<not> i < nslices_m w \<longrightarrow> sl i = []) \<and>
     twentry_slab_m w = (\<Union>i. set (sl i)) \<and>
     num_entries_m w = of_nat (total_linked w sl)"

text \<open>
  The same without the slab: \<open>lists_ok\<close> is what an operation keeps while the entry it
  moves is out of every list, \<open>detached w sl x\<close> is that state, the entry \<open>x\<close> being the
  one element of the slab that is not linked. \<open>same_links\<close> relates two states that
  differ in nothing the lists depend on.
\<close>

definition lists_ok :: "twheel \<Rightarrow> (32 word \<Rightarrow> ptr list) \<Rightarrow> bool" where
  "lists_ok w sl \<longleftrightarrow>
     (\<forall>i. i < nslices_m w \<longrightarrow>
        dlist (twentries w) 0 (slice_head_m w i) (sl i) \<and> distinct (sl i) \<and>
        (\<forall>x \<in> set (sl i). slice_m (twentries w x) = i)) \<and>
     (\<forall>i. \<not> i < nslices_m w \<longrightarrow> sl i = []) \<and>
     num_entries_m w = of_nat (total_linked w sl)"

definition detached :: "twheel \<Rightarrow> (32 word \<Rightarrow> ptr list) \<Rightarrow> ptr \<Rightarrow> bool" where
  "detached w sl x \<longleftrightarrow>
     lists_ok w sl \<and> x \<noteq> 0 \<and> x \<notin> (\<Union>i. set (sl i)) \<and>
     twentry_slab_m w = insert x (\<Union>i. set (sl i))"

definition same_links :: "twheel \<Rightarrow> twheel \<Rightarrow> bool" where
  "same_links w w' \<longleftrightarrow>
     nslices_m w' = nslices_m w \<and> slice_head_m w' = slice_head_m w \<and>
     num_entries_m w' = num_entries_m w \<and> twentry_slab_m w' = twentry_slab_m w \<and>
     (\<forall>x. next_m (twentries w' x) = next_m (twentries w x) \<and>
          prev_m (twentries w' x) = prev_m (twentries w x) \<and>
          slice_m (twentries w' x) = slice_m (twentries w x))"

definition wheel_inv :: "twheel \<Rightarrow> bool" where
  "wheel_inv w \<longleftrightarrow> wheel_ok w \<and> (\<exists>sl. linked w sl)"

text \<open>
  The invariant as the specification words it: every entry that is allocated and not
  yet reclaimed is in exactly one slice list, and \<open>num_entries_\<close> counts the linked
  entries.
\<close>

definition exactly_one_linkage :: "twheel \<Rightarrow> bool" where
  "exactly_one_linkage w \<longleftrightarrow>
     (\<exists>sl. (\<forall>i. i < nslices_m w \<longrightarrow> dlist (twentries w) 0 (slice_head_m w i) (sl i)) \<and>
           (\<forall>x \<in> twentry_slab_m w. \<exists>!i. i < nslices_m w \<and> x \<in> set (sl i)) \<and>
           (\<forall>i. i < nslices_m w \<longrightarrow> set (sl i) \<subseteq> twentry_slab_m w) \<and>
           num_entries_m w = of_nat (\<Sum>i | i < nslices_m w. length (sl i)))"

text \<open>
  Callbacks that keep to the interface of the wheel: they preserve the invariant and
  return no entry to the slab (only \<open>tick\<close> does).
\<close>

definition callbacks_ok :: "callbacks \<Rightarrow> bool" where
  "callbacks_ok cbs \<longleftrightarrow>
     (\<forall>f t i c w w'. wheel_inv w \<longrightarrow> cbs f t i c w = Inr w' \<longrightarrow>
        wheel_inv w' \<and> twentry_slab_m w \<subseteq> twentry_slab_m w')"

text \<open>
  One operation of the wheel that returns. \<open>add_timer\<close> gets from the slab null or an
  element that was not in use; \<open>del_timer\<close> and \<open>upd_timer\<close> get null or the handle of
  an entry that is not yet reclaimed.
\<close>

inductive wheel_step :: "callbacks \<Rightarrow> twheel \<Rightarrow> twheel \<Rightarrow> bool" for cbs :: callbacks where
  step_add: "a = 0 \<or> a \<notin> twentry_slab_m w \<Longrightarrow>
     add_timer w a timer_id timeout ctxt cb periodic initial_delay = Inr (h, w') \<Longrightarrow>
     wheel_step cbs w w'"
| step_del: "timer = 0 \<or> timer \<in> twentry_slab_m w \<Longrightarrow>
     del_timer w timer = Inr (c, w') \<Longrightarrow> wheel_step cbs w w'"
| step_upd: "timer = 0 \<or> timer \<in> twentry_slab_m w \<Longrightarrow>
     upd_timer w timer timeout periodic ctxt = Inr (h, w') \<Longrightarrow> wheel_step cbs w w'"
| step_tick: "tick cbs w msecs_elapsed = Some (Inr w') \<Longrightarrow> wheel_step cbs w w'"

text \<open>
  The slice selection in the words of the specification, over the natural numbers:
  \<open>rem = timeout mod (N\<cdot>g)\<close>, \<open>k = max(1, rem/g)\<close>, candidate \<open>(curr_slice + k) mod N\<close>,
  advanced by one slot when \<open>update\<close> holds and the candidate is \<open>entry_slice\<close>.
\<close>

definition next_slice_spec :: "nat \<Rightarrow> nat \<Rightarrow> nat \<Rightarrow> nat \<Rightarrow> nat \<Rightarrow> bool \<Rightarrow> nat" where
  "next_slice_spec N g curr_slice timeout entry_slice update =
     (let k = max 1 ((timeout mod (N * g)) div g);
          candidate = (curr_slice + k) mod N
      in if update \<and> candidate = entry_slice then (candidate + 1) mod N else candidate)"

text \<open>
  The same with the sum \<open>curr_slice + k\<close> as the 32-bit sum that it is in the code:
  the candidate is \<open>((curr_slice + k) mod 2^32) mod N\<close>.
\<close>

definition next_slice_spec32 :: "nat \<Rightarrow> nat \<Rightarrow> nat \<Rightarrow> nat \<Rightarrow> nat \<Rightarrow> bool \<Rightarrow> nat" where
  "next_slice_spec32 N g curr_slice timeout entry_slice update =
     (let k = max 1 ((timeout mod (N * g)) div g);
          candidate = ((curr_slice + k) mod 2 ^ 32) mod N
      in if update \<and> candidate = entry_slice then (candidate + 1) mod N else candidate)"

text \<open>
  The remaining time in the words of the specification:
  \<open>nspins \<cdot> (N\<cdot>g) + ((entry.slice \<minus> curr_slice + N) mod N) \<cdot> g\<close>, over the integers.
\<close>

definition timeout_remaining_spec :: "int \<Rightarrow> int \<Rightarrow> int \<Rightarrow> int \<Rightarrow> int \<Rightarrow> int" where
  "timeout_remaining_spec N g n s c = n * (N * g) + ((s - c + N) mod N) * g"

section \<open>Periodic driver\<close>

text \<open>
  \<open>periodic_thread_run\<close> is modelled by the calls it makes, in order: the thread
  marks itself ready, then for each outcome of \<open>timerfd_wait\<close> it either drives the
  wheel, retries (\<open>EINTR\<close>), or leaves the loop (any other error) and clears
  \<open>g_twheel_is_running\<close>.
\<close>

definition BATCH_SLICE_SIZE :: "64 word" where
  "BATCH_SLICE_SIZE = 10"

definition TWHEEL_DEFAULT_SLICE_DURATION :: "64 word" where
  "TWHEEL_DEFAULT_SLICE_DURATION = 250"

datatype periodic_event = SetReady | Tick "32 word" | PunchHeartbeat | NotRunning

datatype wait_result = Missed "64 word" | Eintr | WaitFailed

text \<open>
  The loop \<open>while (missed)\<close>. The argument of \<open>tick\<close> is computed in 64 bits and passed
  as a 32-bit value.
\<close>

function drive_wheel :: "64 word \<Rightarrow> periodic_event list" where
  "drive_wheel missed =
     (if missed = 0 then []
      else
        let batch = (if missed > BATCH_SLICE_SIZE then BATCH_SLICE_SIZE else missed)
        in Tick (ucast (batch * TWHEEL_DEFAULT_SLICE_DURATION)) # PunchHeartbeat #
           drive_wheel (missed - batch))"
  by pat_completeness auto
termination
  by (relation "measure unat")
     (auto simp: BATCH_SLICE_SIZE_def word_less_nat_alt unat_sub_if' unat_gt_0 split: if_splits)

declare drive_wheel.simps [simp del]

text \<open>The outer loop over the successive results of \<open>timerfd_wait\<close>.\<close>

fun periodic_loop :: "wait_result list \<Rightarrow> periodic_event list" where
  "periodic_loop [] = []"
| "periodic_loop (Missed missed # rs) = drive_wheel missed @ periodic_loop rs"
| "periodic_loop (Eintr # rs) = periodic_loop rs"
| "periodic_loop (WaitFailed # rs) = [NotRunning]"

definition periodic_thread_run :: "wait_result list \<Rightarrow> periodic_event list" where
  "periodic_thread_run rs = SetReady # periodic_loop rs"

text \<open>The calls of \<open>tick\<close> among the events.\<close>

fun is_tick :: "periodic_event \<Rightarrow> bool" where
  "is_tick (Tick msecs) = True"
| "is_tick e = False"

section \<open>Slab pool\<close>

text \<open>
  Modelled from the spec: the declarations of \<open>slab_block_t\<close> and of the members of
  \<open>slab\<close> (\<open>slab.hpp\<close> is not among the sources). The records hold the members that
  \<open>slab::free_\<close> and \<open>slab::free_block_\<close> read and write, the counters as 32-bit
  unsigned values. The members \<open>prev_\<close>, \<open>next_\<close> and \<open>num_in_use_\<close> of a block are
  written \<open>bprev_m\<close>, \<open>bnext_m\<close> and \<open>bnum_in_use_m\<close>, apart from those of a timer
  entry and of the slab.
\<close>

record slab_block =
  bprev_m :: ptr
  bnext_m :: ptr
  free_head_m :: ptr
  bnum_in_use_m :: "32 word"

text \<open>
  \<open>sblocks\<close> is the memory of the block headers, \<open>emeta_in_use\<close> the \<open>in_use\<close> bit of the
  element meta at an address, \<open>elem_link\<close> the free-list pointer kept in the first
  word of a free element, and \<open>allocated\<close> the blocks that the underlying allocator
  has handed out and not got back.
\<close>

record slab =
  block_head_m :: ptr
  raw_block_sz_m :: "32 word"
  grow_on_demand_m :: bool
  num_in_use_m :: "32 word"
  num_frees_m :: "32 word"
  num_blocks_m :: "32 word"
  sblocks :: "ptr \<Rightarrow> slab_block"
  emeta_in_use :: "ptr \<Rightarrow> bool"
  elem_link :: "ptr \<Rightarrow> ptr"
  allocated :: "ptr set"

datatype slab_error = AssertFailed

definition SLAB_ELEM_META_SIZE :: "64 word" where
  "SLAB_ELEM_META_SIZE = 4"

text \<open>\<open>slab::free_block_\<close>: unlink the block and give it back to the allocator.\<close>

definition free_block_m :: "slab \<Rightarrow> ptr \<Rightarrow> slab" where
  "free_block_m s block =
     (let s1 =
        (if block_head_m s = block
         then s\<lparr>block_head_m := bnext_m (sblocks s block)\<rparr>
         else
           let p = bprev_m (sblocks s block);
               m1 = (sblocks s)(p := (sblocks s p)\<lparr>bnext_m := bnext_m (sblocks s block)\<rparr>);
               m2 = (if bnext_m (m1 block) \<noteq> 0
                     then m1(bnext_m (m1 block) :=
                            (m1 (bnext_m (m1 block)))\<lparr>bprev_m := bprev_m (m1 block)\<rparr>)
                     else m1)
           in s\<lparr>sblocks := m2\<rparr>)
      in s1\<lparr>allocated := allocated s1 - {block}, num_blocks_m := num_blocks_m s1 - 1\<rparr>)"

text \<open>
  The search of \<open>slab::free_\<close> for the block whose address range holds the element;
  null when no block does, \<open>None\<close> when the walk along \<open>next_\<close> does not end.
\<close>

partial_function (option) find_block :: "slab \<Rightarrow> ptr \<Rightarrow> ptr \<Rightarrow> ptr option" where
  "find_block s p block =
     (if block = 0 then Some 0
      else if p > block \<and> p < block + ucast (raw_block_sz_m s) then Some block
      else find_block s p (bnext_m (sblocks s block)))"

declare find_block.simps [code]

text \<open>\<open>slab::free_\<close>.\<close>

definition free_m :: "slab \<Rightarrow> ptr \<Rightarrow> (slab_error + slab) option" where
  "free_m s elem =
     (if elem = 0 then Some (Inl AssertFailed)
      else
        let emeta = elem - SLAB_ELEM_META_SIZE
        in if \<not> emeta_in_use s emeta then Some (Inl AssertFailed)
           else case find_block s emeta (block_head_m s) of
                  None \<Rightarrow> None
                | Some block \<Rightarrow>
                    if block \<noteq> 0 then
                      let b = sblocks s block;
                          s1 = s\<lparr>elem_link := (elem_link s)(elem := free_head_m b),
                                 sblocks := (sblocks s)(block :=
                                    b\<lparr>free_head_m := emeta,
                                      bnum_in_use_m := bnum_in_use_m b - 1\<rparr>),
                                 emeta_in_use := (emeta_in_use s)(emeta := False),
                                 num_frees_m := num_frees_m s + 1,
                                 num_in_use_m := num_in_use_m s - 1\<rparr>
                      in if bnum_in_use_m (sblocks s1 block) = 0 \<and> grow_on_demand_m s1 \<and>
                            bnext_m (sblocks s1 block) \<noteq> 0
                         then Some (Inr (free_block_m s1 block))
                         else Some (Inr s1)
                    else Some (Inl AssertFailed))"

text \<open>\<open>slab::free\<close>: \<open>free_\<close> under the lock of the slab.\<close>

definition slab_free :: "slab \<Rightarrow> ptr \<Rightarrow> (slab_error + slab) option" where
  "slab_free s elem = free_m s elem"

section \<open>Event threads and the up/down registry\<close>

text \<open>
  An envelope of the inbox: a user message with its payload, or a thread-up
  notification with the thread it is about.
\<close>

datatype updown_status = THREAD_DOWN | THREAD_UP

datatype lfq_msg = USER_MSG ptr | UPDOWN_MSG "32 word" updown_status

text \<open>
  Modelled from the spec: the queue behind \<open>enqueue\<close> (the thread base class and
  \<open>lfq\<close> are not among the sources). The inbox is the list of envelopes in enqueue
  order; \<open>async_sent\<close> counts the calls of \<open>ev_async_send\<close> on the thread's async watcher.
\<close>

record event_thread =
  inbox :: "lfq_msg list"
  async_sent :: nat

text \<open>
  The process-wide state: \<open>g_event_thread_table\<close> (\<open>None\<close> is a null slot) and the two
  maps of \<open>g_updown\<close>.
\<close>

record event_state =
  g_event_thread_table :: "32 word \<Rightarrow> event_thread option"
  status_m :: "32 word \<rightharpoonup> updown_status"
  subscriptions_m :: "32 word \<rightharpoonup> 32 word list"

datatype event_error = AssertionFailed | NullDereference

definition MAX_THREAD_ID :: "32 word" where
  "MAX_THREAD_ID = 255"

text \<open>
  \<open>event_thread::message_send\<close>: enqueue, then wake the loop.
\<close>

definition thread_message_send :: "event_thread \<Rightarrow> lfq_msg \<Rightarrow> event_thread" where
  "thread_message_send t msg = t\<lparr>inbox := inbox t @ [msg], async_sent := Suc (async_sent t)\<rparr>"

text \<open>
  \<open>event_thread::handle_thread_up\<close> on the thread in slot \<open>subscriber\<close>. \<open>alloc_ok\<close>
  says whether \<open>lfq_msg::factory\<close> gets memory; its null result is written through
  unchecked.
\<close>

definition handle_thread_up :: "bool \<Rightarrow> event_state \<Rightarrow> 32 word \<Rightarrow> event_thread \<Rightarrow> 32 word \<Rightarrow> event_error + event_state" where
  "handle_thread_up alloc_ok st subscriber t thread_id =
     (if \<not> alloc_ok then Inl NullDereference
      else Inr (st\<lparr>g_event_thread_table := (g_event_thread_table st)
                  (subscriber \<mapsto> thread_message_send t (UPDOWN_MSG thread_id THREAD_UP))\<rparr>))"

text \<open>
  \<open>operator[]\<close> of \<open>std::map\<close>: a missing key is inserted with the default value
  (\<open>THREAD_DOWN\<close>, the empty set).
\<close>

definition status_at :: "event_state \<Rightarrow> 32 word \<Rightarrow> updown_status \<times> event_state" where
  "status_at st k =
     (case status_m st k of
        None \<Rightarrow> (THREAD_DOWN, st\<lparr>status_m := (status_m st)(k \<mapsto> THREAD_DOWN)\<rparr>)
      | Some v \<Rightarrow> (v, st))"

definition subscriptions_at :: "event_state \<Rightarrow> 32 word \<Rightarrow> 32 word list \<times> event_state" where
  "subscriptions_at st k =
     (case subscriptions_m st k of
        None \<Rightarrow> ([], st\<lparr>subscriptions_m := (subscriptions_m st)(k \<mapsto> [])\<rparr>)
      | Some v \<Rightarrow> (v, st))"

text \<open>
  A \<open>std::set\<close> is kept as its elements in increasing order, the order in which a
  range-for visits them; \<open>insort_set\<close> is \<open>std::set::insert\<close>.
\<close>

definition insort_set :: "32 word \<Rightarrow> 32 word list \<Rightarrow> 32 word list" where
  "insort_set x xs = (if x \<in> set xs then xs else insort x xs)"

text \<open>\<open>updown_mgr::subscribe\<close>.\<close>

definition subscribe :: "bool \<Rightarrow> event_state \<Rightarrow> 32 word \<Rightarrow> 32 word \<Rightarrow> event_error + event_state" where
  "subscribe alloc_ok st subscriber target =
     (if \<not> subscriber \<noteq> target then Inl AssertionFailed
      else if \<not> subscriber \<le> MAX_THREAD_ID then Inl AssertionFailed
      else if \<not> target \<le> MAX_THREAD_ID then Inl AssertionFailed
      else
        let (status, st1) = status_at st target;
            notified =
              (if status = THREAD_UP then
                 (case g_event_thread_table st1 subscriber of
                    None \<Rightarrow> Inl AssertionFailed
                  | Some t \<Rightarrow> handle_thread_up alloc_ok st1 subscriber t target)
               else Inr st1)
        in case notified of
             Inl e \<Rightarrow> Inl e
           | Inr st2 \<Rightarrow>
               let (subs, st3) = subscriptions_at st2 target
               in Inr (st3\<lparr>subscriptions_m := (subscriptions_m st3)(target \<mapsto> insort_set subscriber subs)\<rparr>))"

text \<open>The loop of \<open>updown_mgr::up\<close> over the subscribers of the thread.\<close>

fun notify_subscribers :: "bool \<Rightarrow> event_state \<Rightarrow> 32 word \<Rightarrow> 32 word list \<Rightarrow> event_error + event_state" where
  "notify_subscribers alloc_ok st thread_id [] = Inr st"
| "notify_subscribers alloc_ok st thread_id (subscriber # rest) =
     (case g_event_thread_table st subscriber of
        None \<Rightarrow> Inl AssertionFailed
      | Some t \<Rightarrow>
          (case handle_thread_up alloc_ok st subscriber t thread_id of
             Inl e \<Rightarrow> Inl e
           | Inr st1 \<Rightarrow> notify_subscribers alloc_ok st1 thread_id rest))"

text \<open>\<open>updown_mgr::up\<close>.\<close>

definition up :: "bool \<Rightarrow> event_state \<Rightarrow> 32 word \<Rightarrow> event_error + event_state" where
  "up alloc_ok st thread_id =
     (if \<not> thread_id \<le> MAX_THREAD_ID then Inl AssertionFailed
      else
        let (status, st1) = status_at st thread_id
        in if \<not> status \<noteq> THREAD_UP then Inl AssertionFailed
           else
             let st2 = st1\<lparr>status_m := (status_m st1)(thread_id \<mapsto> THREAD_UP)\<rparr>;
                 (subs, st3) = subscriptions_at st2 thread_id
             in notify_subscribers alloc_ok st3 thread_id subs)"

text \<open>\<open>updown_mgr::down\<close>.\<close>

definition down :: "event_state \<Rightarrow> 32 word \<Rightarrow> event_error + event_state" where
  "down st thread_id =
     (if \<not> thread_id \<le> MAX_THREAD_ID then Inl AssertionFailed
      else Inr (st\<lparr>status_m := (status_m st)(thread_id \<mapsto> THREAD_DOWN)\<rparr>))"

text \<open>The global \<open>message_send\<close>.\<close>

definition message_send :: "bool \<Rightarrow> event_state \<Rightarrow> 32 word \<Rightarrow> ptr \<Rightarrow> event_error + event_state" where
  "message_send alloc_ok st thread_id message =
     (if \<not> thread_id \<le> MAX_THREAD_ID then Inl AssertionFailed
      else case g_event_thread_table st thread_id of
             None \<Rightarrow> Inl AssertionFailed
           | Some t \<Rightarrow>
               if \<not> alloc_ok then Inl NullDereference
               else Inr (st\<lparr>g_event_thread_table := (g_event_thread_table st)
                           (thread_id \<mapsto> thread_message_send t (USER_MSG message))\<rparr>))"

text \<open>The UP notifications about \<open>target\<close> in the inbox of the thread in slot \<open>subscriber\<close>.\<close>

definition up_notifications :: "event_state \<Rightarrow> 32 word \<Rightarrow> 32 word \<Rightarrow> lfq_msg list" where
  "up_notifications st subscriber target =
     (case g_event_thread_table st subscriber of
        None \<Rightarrow> []
      | Some t \<Rightarrow> filter (\<lambda>msg. msg = UPDOWN_MSG target THREAD_UP) (inbox t))"

section \<open>Concrete states\<close>

text \<open>
  A memory of blank entries, and the wheel that \<open>factory\<close> builds over it with ten
  slices of 100 ms, thread-safe.
\<close>

definition blank_entry :: twentry where
  "blank_entry = \<lparr> timer_id_m = 0, timeout_m = 0, periodic_m = False, valid_m = False,
     ctxt_m = 0, cb_m = 0, nspins_m = 0, slice_m = 0, next_m = 0, prev_m = 0 \<rparr>"

definition blank_memory :: "ptr \<Rightarrow> twentry" where
  "blank_memory = (\<lambda>_. blank_entry)"

definition example_wheel :: twheel where
  "example_wheel = the (projr (factory True True True blank_memory 100 1000 True))"

text \<open>
  The largest wheel that \<open>factory\<close> accepts for a 1 ms interval, \<open>2^32 - 1\<close> slices,
  and the same wheel after \<open>add_timer\<close> with a timeout of \<open>2^32 - 2\<close> ms, the slab
  handing out the element at address 8192.
\<close>

definition big_wheel :: twheel where
  "big_wheel = the (projr (factory True True True blank_memory 1 4294967295 False))"

definition big_wheel_1 :: twheel where
  "big_wheel_1 = snd (projr (add_timer big_wheel 8192 1 4294967294 0 1280 False 0))"

text \<open>
  The example wheel after \<open>add_timer(id = 1, timeout = 350, ctxt = 4096, cb = 1280,
  one-shot, no initial delay)\<close>, the slab handing out the element at address 8192; and
  after a first and a second \<open>del_timer\<close> of that handle.
\<close>

definition example_wheel_1 :: twheel where
  "example_wheel_1 = snd (projr (add_timer example_wheel 8192 1 350 4096 1280 False 0))"

definition example_wheel_2 :: twheel where
  "example_wheel_2 = snd (projr (del_timer example_wheel_1 8192))"

definition example_wheel_3 :: twheel where
  "example_wheel_3 = snd (projr (del_timer example_wheel_2 8192))"

text \<open>
  The wheel of the periodic thread: \<open>factory(TWHEEL_DEFAULT_SLICE_DURATION,
  TWHEEL_DEFAULT_DURATION, true)\<close>, two hours of 250 ms slices; and the callback
  table in which no callback touches the wheel.
\<close>

definition periodic_wheel :: twheel where
  "periodic_wheel = the (projr (factory True True True blank_memory 250 7200000 True))"

definition idle_callbacks :: callbacks where
  "idle_callbacks = (\<lambda>f t i c w. Inr w)"

text \<open>
  \<open>example_wheel_1\<close> after \<open>tick(400)\<close> with idle callbacks: four slices are walked, the
  one-shot timer of slice 3 fires and goes to delayed deletion.
\<close>

definition example_wheel_4 :: twheel where
  "example_wheel_4 = projr (the (tick idle_callbacks example_wheel_1 400))"

text \<open>
  \<open>example_wheel_1\<close> after \<open>upd_timer(h, 350, one-shot, ctxt = 4096)\<close>, whose candidate
  slice is the slice 3 of the entry; \<open>example_wheel_1\<close> with the lock of slice 3 held, as
  \<open>tick\<close> holds it when it walks that slice, and that wheel after the internal
  reschedule \<open>upd_timer_(h, 350, periodic)\<close>.
\<close>

definition example_wheel_5 :: twheel where
  "example_wheel_5 = snd (projr (upd_timer example_wheel_1 8192 350 False 4096))"

definition example_wheel_locked :: twheel where
  "example_wheel_locked = projr (TWHEEL_LOCK_SLICE example_wheel_1 3)"

definition example_wheel_6 :: twheel where
  "example_wheel_6 = projr (upd_timer_m example_wheel_locked 8192 350 True)"

text \<open>
  The wheel of \<open>2^32 - 1\<close> slices of 1 ms after \<open>tick(2)\<close>: the current slice is 2.
\<close>

definition big_wheel_2 :: twheel where
  "big_wheel_2 = projr (the (tick idle_callbacks big_wheel 2))"

text \<open>
  A grow-on-demand slab with two blocks of 256 bytes: the block at 4096 is the head of
  the list, the older block at 20480 is its successor and the last of the list. Each
  block has one element in use; the one of the older block has its meta at 20512 and
  is the element 20516. \<open>slab_two_blocks_freed\<close> is the slab after that element is freed.
\<close>

definition slab_two_blocks :: slab where
  "slab_two_blocks = \<lparr> block_head_m = 4096, raw_block_sz_m = 256, grow_on_demand_m = True,
     num_in_use_m = 2, num_frees_m = 0, num_blocks_m = 2,
     sblocks = (\<lambda>_. \<lparr> bprev_m = 0, bnext_m = 0, free_head_m = 0, bnum_in_use_m = 0 \<rparr>)
        (4096 := \<lparr> bprev_m = 0, bnext_m = 20480, free_head_m = 4160, bnum_in_use_m = 1 \<rparr>,
         20480 := \<lparr> bprev_m = 4096, bnext_m = 0, free_head_m = 20544, bnum_in_use_m = 1 \<rparr>),
     emeta_in_use = (\<lambda>_. False)(4128 := True, 20512 := True),
     elem_link = (\<lambda>_. 0),
     allocated = {4096, 20480} \<rparr>"

definition slab_two_blocks_freed :: slab where
  "slab_two_blocks_freed = projr (the (slab_free slab_two_blocks 20516))"

text \<open>
  The same slab with the element of the head block freed instead (meta at 4128,
  element 4132).
\<close>

definition slab_head_freed :: slab where
  "slab_head_freed = projr (the (slab_free slab_two_blocks 4132))"

text \<open>Two event threads, registered in slots 1 and 2, with empty inboxes; no thread is up.\<close>

definition example_event_state :: event_state where
  "example_event_state = \<lparr>
     g_event_thread_table = (\<lambda>_. None)(1 \<mapsto> \<lparr>inbox = [], async_sent = 0\<rparr>,
                                          2 \<mapsto> \<lparr>inbox = [], async_sent = 0\<rparr>),
     status_m = Map.empty,
     subscriptions_m = Map.empty \<rparr>"

text \<open>The example threads after thread 2 came up, and after thread 1 then subscribed to it.\<close>

definition example_event_state_1 :: event_state where
  "example_event_state_1 = projr (up True example_event_state 2)"

definition example_event_state_2 :: event_state where
  "example_event_state_2 = projr (subscribe True example_event_state_1 1 2)"

section \<open>Proofs: timer wheel\<close>

subsection \<open>Conversions between the integer widths\<close>

lemma unat_lt_2p32: "unat (x :: 32 word) < 4294967296"
  using unsigned_less [of x, where 'a = nat] by simp

lemma unat_lt_2p64: "unat (x :: 64 word) < 18446744073709551616"
  using unsigned_less [of x, where 'a = nat] by simp

lemma unat_lt_2p16: "unat (x :: 16 word) < 65536"
  using unsigned_less [of x, where 'a = nat] by simp

lemma unat_ucast_32_64: "unat (ucast (x :: 32 word) :: 64 word) = unat x"
  using unat_lt_2p32 [of x] by (simp add: unsigned_ucast_eq take_bit_eq_mod)

lemma unat_ucast_16_64: "unat (ucast (x :: 16 word) :: 64 word) = unat x"
  using unat_lt_2p16 [of x] by (simp add: unsigned_ucast_eq take_bit_eq_mod)

lemma unat_ucast_64_32: "unat (ucast (x :: 64 word) :: 32 word) = unat x mod 4294967296"
  by (simp add: unsigned_ucast_eq take_bit_eq_mod)

lemma unat_ucast_64_16: "unat (ucast (x :: 64 word) :: 16 word) = unat x mod 65536"
  by (simp add: unsigned_ucast_eq take_bit_eq_mod)

lemma unat_nslices_factory:
  "unat (ucast ((ucast (D :: 32 word) :: 64 word) div g) :: 32 word) = unat D div unat g"
proof -
  have "unat D div unat g \<le> unat D" by (rule div_le_dividend)
  then have "unat D div unat g < 4294967296" using unat_lt_2p32 [of D] by linarith
  then show ?thesis
    by (simp add: unat_ucast_64_32 unat_div unat_ucast_32_64)
qed

lemma factory_wheel_ok:
  assumes "factory mem_ok slab_ok slices_ok m g D ts = Inr (Some w)"
  shows "wheel_ok w"
proof -
  from assms have g: "g \<noteq> 0" and lt: "\<not> ucast D \<le> g"
    and N: "nslices_m w = ucast ((ucast D :: 64 word) div g)" and gw: "slice_intvl_m w = g"
    and c: "curr_slice_m w = 0"
    by (auto simp: factory_def init_def twheel_destructor_def split: if_splits)
  from lt have lt': "unat g < unat D"
    by (simp add: word_le_nat_alt unat_ucast_32_64)
  from g have g0: "0 < unat g" by (simp add: unat_gt_0)
  have n: "unat (nslices_m w) = unat D div unat g"
    by (simp add: N unat_nslices_factory)
  have "1 \<le> unat D div unat g" using lt' g0
    by (simp add: Suc_leI div_greater_zero_iff)
  then have n0: "nslices_m w \<noteq> 0" using n by (auto simp flip: unat_eq_0)
  have "unat D div unat g * unat g < 4294967296"
    by (rule le_less_trans [OF _ unat_lt_2p32 [of D]]) simp
  then have p: "unat (nslices_m w) * unat (slice_intvl_m w) < 2 ^ 32"
    by (simp add: n gw)
  show ?thesis using g n0 p c gw
    by (simp add: wheel_ok_def word_less_nat_alt unat_gt_0)
qed

lemma next_slice_m_lt:
  assumes "nslices_m w \<noteq> 0"
  shows "next_slice_m w timeout entry_slice update < nslices_m w"
  using assms by (simp add: next_slice_m_def Let_def word_mod_less_divisor word_neq_0_conv)

lemma succ_mod_neq:
  fixes s N :: "32 word"
  assumes N: "2 \<le> unat N" and s: "s < N"
  shows "(s + 1) mod N \<noteq> s"
proof -
  have sN: "unat s < unat N" using s by (simp add: word_less_nat_alt)
  have "unat s + 1 < 4294967296" using sN unat_lt_2p32 [of N] by linarith
  then have "unat (s + 1) = unat s + 1"
    by (simp add: unat_word_ariths)
  then have u: "unat ((s + 1) mod N) = (unat s + 1) mod unat N"
    by (simp add: unat_mod)
  have "(unat s + 1) mod unat N \<noteq> unat s"
  proof (cases "unat s + 1 < unat N")
    case True then show ?thesis by simp
  next
    case False
    then have "unat s + 1 = unat N" using sN by linarith
    then show ?thesis using N by auto
  qed
  then show ?thesis using u by auto
qed

lemma next_slice_m_update_neq:
  assumes "2 \<le> unat (nslices_m w)"
  shows "next_slice_m w timeout entry_slice True \<noteq> entry_slice"
proof -
  have n0: "nslices_m w \<noteq> 0" using assms by auto
  define c where "c = next_slice_m w timeout entry_slice False"
  have c: "c < nslices_m w" unfolding c_def by (rule next_slice_m_lt [OF n0])
  have r: "next_slice_m w timeout entry_slice True =
           (if c = entry_slice then (c + 1) mod nslices_m w else c)"
    by (simp add: next_slice_m_def c_def Let_def)
  show ?thesis using succ_mod_neq [OF assms c] by (auto simp: r)
qed

lemma ring_unlink [simp]:
  "nslices_m (unlink_timer_m w t) = nslices_m w"
  "slice_intvl_m (unlink_timer_m w t) = slice_intvl_m w"
  "curr_slice_m (unlink_timer_m w t) = curr_slice_m w"
  "thread_safe_m (unlink_timer_m w t) = thread_safe_m w"
  "slock_m (unlink_timer_m w t) = slock_m w"
  "twentry_slab_m (unlink_timer_m w t) = twentry_slab_m w"
  by (simp_all add: unlink_timer_m_def Let_def)

lemma ring_remove [simp]:
  "nslices_m (remove_timer_m w t) = nslices_m w"
  "slice_intvl_m (remove_timer_m w t) = slice_intvl_m w"
  "curr_slice_m (remove_timer_m w t) = curr_slice_m w"
  "thread_safe_m (remove_timer_m w t) = thread_safe_m w"
  "slock_m (remove_timer_m w t) = slock_m w"
  "twentry_slab_m (remove_timer_m w t) = twentry_slab_m w"
  by (simp_all add: remove_timer_m_def Let_def)

lemma ring_insert [simp]:
  "nslices_m (insert_timer_m w t) = nslices_m w"
  "slice_intvl_m (insert_timer_m w t) = slice_intvl_m w"
  "curr_slice_m (insert_timer_m w t) = curr_slice_m w"
  "thread_safe_m (insert_timer_m w t) = thread_safe_m w"
  "slock_m (insert_timer_m w t) = slock_m w"
  "twentry_slab_m (insert_timer_m w t) = twentry_slab_m w"
  by (simp_all add: insert_timer_m_def Let_def)

lemma ring_init_twentry [simp]:
  "nslices_m (init_twentry_m w t i tm p c f s) = nslices_m w"
  "slice_intvl_m (init_twentry_m w t i tm p c f s) = slice_intvl_m w"
  "curr_slice_m (init_twentry_m w t i tm p c f s) = curr_slice_m w"
  "thread_safe_m (init_twentry_m w t i tm p c f s) = thread_safe_m w"
  "slock_m (init_twentry_m w t i tm p c f s) = slock_m w"
  "twentry_slab_m (init_twentry_m w t i tm p c f s) = twentry_slab_m w"
  "slice_head_m (init_twentry_m w t i tm p c f s) = slice_head_m w"
  "num_entries_m (init_twentry_m w t i tm p c f s) = num_entries_m w"
  by (simp_all add: init_twentry_m_def)

lemma ring_unlock [simp]:
  "nslices_m (TWHEEL_UNLOCK_SLICE w s) = nslices_m w"
  "slice_intvl_m (TWHEEL_UNLOCK_SLICE w s) = slice_intvl_m w"
  "curr_slice_m (TWHEEL_UNLOCK_SLICE w s) = curr_slice_m w"
  "thread_safe_m (TWHEEL_UNLOCK_SLICE w s) = thread_safe_m w"
  "twentry_slab_m (TWHEEL_UNLOCK_SLICE w s) = twentry_slab_m w"
  "slice_head_m (TWHEEL_UNLOCK_SLICE w s) = slice_head_m w"
  "num_entries_m (TWHEEL_UNLOCK_SLICE w s) = num_entries_m w"
  "twentries (TWHEEL_UNLOCK_SLICE w s) = twentries w"
  by (simp_all add: TWHEEL_UNLOCK_SLICE_def)

lemma lock_slice_Inr:
  "TWHEEL_LOCK_SLICE w s = Inr w' \<Longrightarrow>
     w' = (if thread_safe_m w then w\<lparr>slock_m := (slock_m w)(s := True)\<rparr> else w) \<and>
     (thread_safe_m w \<longrightarrow> \<not> slock_m w s)"
  by (auto simp: TWHEEL_LOCK_SLICE_def split: if_splits)

lemma lock_slice_free:
  "\<not> slock_m w s \<Longrightarrow>
   TWHEEL_LOCK_SLICE w s = Inr (if thread_safe_m w then w\<lparr>slock_m := (slock_m w)(s := True)\<rparr> else w)"
  by (simp add: TWHEEL_LOCK_SLICE_def)

lemma lock_slice_not_safe:
  "\<not> thread_safe_m w \<Longrightarrow> TWHEEL_LOCK_SLICE w s = Inr w"
  by (simp add: TWHEEL_LOCK_SLICE_def)

lemma next_slice_m_ring:
  assumes "nslices_m w' = nslices_m w" "slice_intvl_m w' = slice_intvl_m w"
    "curr_slice_m w' = curr_slice_m w"
  shows "next_slice_m w' = next_slice_m w"
  using assms by (simp add: next_slice_m_def fun_eq_iff Let_def)

lemma slice_m_set_fields [simp]:
  "slice_m (set_next m p q x) = slice_m (m x)"
  "slice_m (set_prev m p q x) = slice_m (m x)"
  "slice_m (set_valid m p b x) = slice_m (m x)"
  by (simp_all add: set_next_def set_prev_def set_valid_def)

lemma slice_m_unlink [simp]:
  "slice_m (twentries (unlink_timer_m w t) x) = slice_m (twentries w x)"
  by (simp add: unlink_timer_m_def Let_def)

lemma slice_m_remove [simp]:
  "slice_m (twentries (remove_timer_m w t) x) = slice_m (twentries w x)"
  by (simp add: remove_timer_m_def Let_def)

lemma upd_timer_no_self_deadlock:
  assumes N: "2 \<le> unat (nslices_m w)" and free: "\<forall>i. \<not> slock_m w i"
  shows "upd_timer w timer timeout periodic ctxt \<noteq> Inl SelfDeadlock"
proof (cases "thread_safe_m w")
  case False
  then show ?thesis
    by (simp add: upd_timer_def Let_def lock_slice_not_safe)
next
  case True
  define es where "es = slice_m (twentries w timer)"
  define w1 where "w1 = w\<lparr>slock_m := (slock_m w)(es := True)\<rparr>"
  define w2 where "w2 = remove_timer_m w1 timer"
  have l1: "TWHEEL_LOCK_SLICE w es = Inr w1"
    using free True by (simp add: lock_slice_free w1_def)
  have ns: "next_slice_m w2 timeout es True \<noteq> es"
    by (rule next_slice_m_update_neq) (simp add: w2_def w1_def N)
  have "\<not> slock_m w2 (next_slice_m w2 timeout es True)"
    using ns free by (simp add: w2_def w1_def)
  then have l2: "\<exists>w3. TWHEEL_LOCK_SLICE w2 (next_slice_m w2 timeout es True) = Inr w3"
    by (simp add: lock_slice_free)
  show ?thesis using l1 l2
    by (auto simp: upd_timer_def Let_def es_def [symmetric] w2_def [symmetric])
qed

lemma upd_timer_m_no_self_deadlock:
  assumes N: "2 \<le> unat (nslices_m w)"
    and held: "\<forall>i. slock_m w i \<longrightarrow> i = slice_m (twentries w twentry)"
  shows "upd_timer_m w twentry timeout periodic \<noteq> Inl SelfDeadlock"
proof -
  define w1 where "w1 = remove_timer_m w twentry"
  define es where "es = slice_m (twentries w1 twentry)"
  have es: "es = slice_m (twentries w twentry)" by (simp add: es_def w1_def)
  have ns: "next_slice_m w1 timeout es True \<noteq> es"
    by (rule next_slice_m_update_neq) (simp add: w1_def N)
  have "\<not> slock_m w1 (next_slice_m w1 timeout es True)"
    using ns held es by (auto simp: w1_def)
  then have "\<exists>w2. TWHEEL_LOCK_SLICE w1 (next_slice_m w1 timeout es True) = Inr w2"
    by (simp add: lock_slice_free)
  then show ?thesis
    by (auto simp: upd_timer_m_def Let_def w1_def [symmetric] es_def [symmetric])
qed

lemma wheel_ok_unat_prod:
  assumes "wheel_ok w"
  shows "unat (ucast (nslices_m w) * slice_intvl_m w :: 64 word) =
         unat (nslices_m w) * unat (slice_intvl_m w)"
proof -
  have "unat (nslices_m w) * unat (slice_intvl_m w) < 18446744073709551616"
    using assms by (simp add: wheel_ok_def)
  then show ?thesis
    by (simp add: unat_word_ariths unat_ucast_32_64)
qed

lemma wheel_ok_pos:
  assumes "wheel_ok w"
  shows "0 < unat (nslices_m w)" "0 < unat (slice_intvl_m w)"
    "unat (curr_slice_m w) < unat (nslices_m w)"
  using assms by (simp_all add: wheel_ok_def unat_gt_0 word_less_nat_alt)

text \<open>The number of slots to advance, before it is raised to one.\<close>

lemma unat_num_slices:
  assumes ok: "wheel_ok w"
  shows "unat (ucast ((ucast (ucast (timeout mod (ucast (nslices_m w) * slice_intvl_m w)) :: 32 word) :: 64 word)
                 div slice_intvl_m w) :: 32 word) =
         (unat timeout mod (unat (nslices_m w) * unat (slice_intvl_m w))) div unat (slice_intvl_m w)"
proof -
  let ?P = "unat (nslices_m w) * unat (slice_intvl_m w)"
  let ?r = "unat timeout mod ?P" and ?g = "unat (slice_intvl_m w)"
  define rem :: "32 word" where "rem = ucast (timeout mod (ucast (nslices_m w) * slice_intvl_m w))"
  define q :: "64 word" where "q = ucast rem div slice_intvl_m w"
  have P: "?P < 4294967296" using ok by (simp add: wheel_ok_def)
  have P0: "0 < ?P" using wheel_ok_pos [OF ok] by simp
  have r: "?r < 4294967296" using P P0 by (meson less_trans mod_less_divisor)
  have "unat (timeout mod (ucast (nslices_m w) * slice_intvl_m w)) = ?r"
    by (simp add: unat_mod wheel_ok_unat_prod [OF ok])
  then have 1: "unat rem = ?r"
    using r by (simp add: rem_def unat_ucast_64_32)
  have q: "unat q = ?r div ?g"
    by (simp add: q_def unat_div unat_ucast_32_64 1)
  have "?r div ?g \<le> ?r" by (rule div_le_dividend)
  then have "unat q < 4294967296" using r q by linarith
  then have "unat (ucast q :: 32 word) = ?r div ?g"
    using q by (simp add: unat_ucast_64_32)
  then show ?thesis by (simp add: q_def rem_def)
qed

lemma num_slices_lt:
  assumes ok: "wheel_ok w"
  shows "(unat timeout mod (unat (nslices_m w) * unat (slice_intvl_m w))) div unat (slice_intvl_m w)
         < unat (nslices_m w)"
proof -
  have "unat timeout mod (unat (nslices_m w) * unat (slice_intvl_m w))
        < unat (nslices_m w) * unat (slice_intvl_m w)"
    using wheel_ok_pos [OF ok] by simp
  then show ?thesis
    using wheel_ok_pos [OF ok] by (simp add: less_mult_imp_div_less)
qed

lemma next_slice_m_spec:
  assumes ok: "wheel_ok w" and small: "unat (nslices_m w) \<le> 2 ^ 31"
  shows "unat (next_slice_m w timeout entry_slice update) =
         next_slice_spec (unat (nslices_m w)) (unat (slice_intvl_m w)) (unat (curr_slice_m w))
           (unat timeout) (unat entry_slice) update"
proof -
  let ?N = "unat (nslices_m w)" and ?g = "unat (slice_intvl_m w)" and ?c = "unat (curr_slice_m w)"
  define k0 :: "32 word" where
    "k0 = ucast ((ucast (ucast (timeout mod (ucast (nslices_m w) * slice_intvl_m w)) :: 32 word) :: 64 word)
                 div slice_intvl_m w)"
  define k :: "32 word" where "k = (if k0 = 0 then 1 else k0)"
  define s where "s = (curr_slice_m w + k) mod nslices_m w"
  have k0: "unat k0 = (unat timeout mod (?N * ?g)) div ?g"
    unfolding k0_def by (rule unat_num_slices [OF ok])
  have k0N: "unat k0 < ?N" using num_slices_lt [OF ok, of timeout] k0 by simp
  have N0: "0 < ?N" and cN: "?c < ?N" using wheel_ok_pos [OF ok] by simp_all
  have k: "unat k = max 1 ((unat timeout mod (?N * ?g)) div ?g)"
    using k0 unat_eq_0 [of k0] by (auto simp: k_def max_def)
  have kN: "unat k \<le> ?N" using k0N N0 by (auto simp: k_def)
  have "?c + unat k < 4294967296" using cN kN small by simp
  then have ck: "unat (curr_slice_m w + k) = ?c + unat k"
    by (simp add: unat_word_ariths)
  have s: "unat s = (?c + unat k) mod ?N"
    by (simp add: s_def unat_mod ck)
  have sN: "unat s < ?N" using s N0 by simp
  have "unat s + 1 < 4294967296" using sN small by simp
  then have "unat (s + 1) = unat s + 1" by (simp add: unat_word_ariths)
  then have s1: "unat ((s + 1) mod nslices_m w) = (unat s + 1) mod ?N"
    by (simp add: unat_mod)
  have r: "next_slice_m w timeout entry_slice update =
           (if update \<and> s = entry_slice then (s + 1) mod nslices_m w else s)"
    by (auto simp: next_slice_m_def Let_def s_def k_def k0_def)
  show ?thesis
    by (simp add: r next_slice_spec_def Let_def s s1 k word_unat_eq_iff [of s entry_slice])
qed

lemma example_wheel_eq:
  "example_wheel = \<lparr> twentry_slab_m = {}, slice_intvl_m = 100, thread_safe_m = True,
     nslices_m = 10, slice_head_m = (\<lambda>_. 0), slock_m = (\<lambda>_. False), curr_slice_m = 0,
     num_entries_m = 0, twentries = blank_memory \<rparr>"
  by (simp add: example_wheel_def factory_def init_def)

lemma example_wheel_ok: "wheel_ok example_wheel"
  by (simp add: example_wheel_eq wheel_ok_def)

lemma fields_set_next [simp]:
  "timer_id_m (set_next m p q x) = timer_id_m (m x)"
  "timeout_m (set_next m p q x) = timeout_m (m x)"
  "periodic_m (set_next m p q x) = periodic_m (m x)"
  "valid_m (set_next m p q x) = valid_m (m x)"
  "ctxt_m (set_next m p q x) = ctxt_m (m x)"
  "cb_m (set_next m p q x) = cb_m (m x)"
  "nspins_m (set_next m p q x) = nspins_m (m x)"
  "prev_m (set_next m p q x) = prev_m (m x)"
  "next_m (set_next m p q x) = (if x = p then q else next_m (m x))"
  by (simp_all add: set_next_def)

lemma fields_set_prev [simp]:
  "timer_id_m (set_prev m p q x) = timer_id_m (m x)"
  "timeout_m (set_prev m p q x) = timeout_m (m x)"
  "periodic_m (set_prev m p q x) = periodic_m (m x)"
  "valid_m (set_prev m p q x) = valid_m (m x)"
  "ctxt_m (set_prev m p q x) = ctxt_m (m x)"
  "cb_m (set_prev m p q x) = cb_m (m x)"
  "nspins_m (set_prev m p q x) = nspins_m (m x)"
  "next_m (set_prev m p q x) = next_m (m x)"
  "prev_m (set_prev m p q x) = (if x = p then q else prev_m (m x))"
  by (simp_all add: set_prev_def)

lemma fields_set_valid [simp]:
  "timer_id_m (set_valid m p b x) = timer_id_m (m x)"
  "timeout_m (set_valid m p b x) = timeout_m (m x)"
  "periodic_m (set_valid m p b x) = periodic_m (m x)"
  "ctxt_m (set_valid m p b x) = ctxt_m (m x)"
  "cb_m (set_valid m p b x) = cb_m (m x)"
  "nspins_m (set_valid m p b x) = nspins_m (m x)"
  "next_m (set_valid m p b x) = next_m (m x)"
  "prev_m (set_valid m p b x) = prev_m (m x)"
  "valid_m (set_valid m p b x) = (if x = p then b else valid_m (m x))"
  by (simp_all add: set_valid_def)

lemma fields_insert [simp]:
  "timer_id_m (twentries (insert_timer_m w t) x) = timer_id_m (twentries w x)"
  "timeout_m (twentries (insert_timer_m w t) x) = timeout_m (twentries w x)"
  "periodic_m (twentries (insert_timer_m w t) x) = periodic_m (twentries w x)"
  "ctxt_m (twentries (insert_timer_m w t) x) = ctxt_m (twentries w x)"
  "cb_m (twentries (insert_timer_m w t) x) = cb_m (twentries w x)"
  "nspins_m (twentries (insert_timer_m w t) x) = nspins_m (twentries w x)"
  "slice_m (twentries (insert_timer_m w t) x) = slice_m (twentries w x)"
  "valid_m (twentries (insert_timer_m w t) x) = (if x = t then True else valid_m (twentries w x))"
  by (simp_all add: insert_timer_m_def Let_def)

lemma fields_unlink [simp]:
  "timer_id_m (twentries (unlink_timer_m w t) x) = timer_id_m (twentries w x)"
  "timeout_m (twentries (unlink_timer_m w t) x) = timeout_m (twentries w x)"
  "periodic_m (twentries (unlink_timer_m w t) x) = periodic_m (twentries w x)"
  "ctxt_m (twentries (unlink_timer_m w t) x) = ctxt_m (twentries w x)"
  "cb_m (twentries (unlink_timer_m w t) x) = cb_m (twentries w x)"
  "nspins_m (twentries (unlink_timer_m w t) x) = nspins_m (twentries w x)"
  "valid_m (twentries (unlink_timer_m w t) x) = valid_m (twentries w x)"
  by (simp_all add: unlink_timer_m_def Let_def)

lemma fields_remove [simp]:
  "timer_id_m (twentries (remove_timer_m w t) x) = timer_id_m (twentries w x)"
  "timeout_m (twentries (remove_timer_m w t) x) = timeout_m (twentries w x)"
  "periodic_m (twentries (remove_timer_m w t) x) = periodic_m (twentries w x)"
  "ctxt_m (twentries (remove_timer_m w t) x) = ctxt_m (twentries w x)"
  "cb_m (twentries (remove_timer_m w t) x) = cb_m (twentries w x)"
  "nspins_m (twentries (remove_timer_m w t) x) = nspins_m (twentries w x)"
  "valid_m (twentries (remove_timer_m w t) x) = (if x = t then False else valid_m (twentries w x))"
  by (simp_all add: remove_timer_m_def Let_def)

lemma init_twentry_entry [simp]:
  "twentries (init_twentry_m w t i tm p c f s) x =
     (if x = t then \<lparr> timer_id_m = i, timeout_m = ucast tm, periodic_m = p, valid_m = False,
          ctxt_m = c, cb_m = f,
          nspins_m = ucast (tm div (ucast (nslices_m w) * slice_intvl_m w)),
          slice_m = s, next_m = 0, prev_m = 0 \<rparr>
      else twentries w x)"
  by (simp add: init_twentry_m_def)

lemma ring_lock:
  assumes "TWHEEL_LOCK_SLICE w s = Inr w'"
  shows "nslices_m w' = nslices_m w" "slice_intvl_m w' = slice_intvl_m w"
    "curr_slice_m w' = curr_slice_m w" "thread_safe_m w' = thread_safe_m w"
    "twentry_slab_m w' = twentry_slab_m w" "slice_head_m w' = slice_head_m w"
    "num_entries_m w' = num_entries_m w" "twentries w' = twentries w"
  using assms by (auto simp: TWHEEL_LOCK_SLICE_def split: if_splits)

lemma wheel_ok_ring:
  assumes "nslices_m w' = nslices_m w" "slice_intvl_m w' = slice_intvl_m w"
    "curr_slice_m w' = curr_slice_m w"
  shows "wheel_ok w' = wheel_ok w"
  using assms by (simp add: wheel_ok_def)

lemma add_timer_Inr:
  assumes "add_timer w a timer_id timeout ctxt cb periodic initial_delay = Inr (h, w')"
    and "a \<noteq> 0"
  shows "h = a" "nslices_m w' = nslices_m w" "slice_intvl_m w' = slice_intvl_m w"
    "curr_slice_m w' = curr_slice_m w"
    "nspins_m (twentries w' a) = ucast (timeout div (ucast (nslices_m w) * slice_intvl_m w))"
  using assms
  by (auto simp: add_timer_def Let_def split: sum.splits dest!: lock_slice_Inr)

lemma upd_timer_Inr:
  assumes "upd_timer w timer timeout periodic ctxt = Inr (h, w')"
    and "timer \<noteq> 0" and "valid_m (twentries w timer)"
  shows "h = timer" "nslices_m w' = nslices_m w" "slice_intvl_m w' = slice_intvl_m w"
    "curr_slice_m w' = curr_slice_m w"
    "nspins_m (twentries w' timer) = ucast (timeout div (ucast (nslices_m w) * slice_intvl_m w))"
  using assms
  by (auto simp: upd_timer_def Let_def split: sum.splits if_splits dest!: lock_slice_Inr)

lemmas wheel_eval_defs =
  add_timer_def del_timer_def upd_timer_def next_slice_m_def init_twentry_m_def
  TWHEEL_LOCK_SLICE_def TWHEEL_UNLOCK_SLICE_def insert_timer_m_def unlink_timer_m_def
  remove_timer_m_def delay_delete_m_def upd_timer_m_def TWHEEL_DELAY_DELETE_def
  set_next_def set_prev_def set_valid_def Let_def

lemma example_wheel_1_eq:
  "example_wheel_1 = \<lparr> twentry_slab_m = {8192}, slice_intvl_m = 100, thread_safe_m = True,
     nslices_m = 10, slice_head_m = (\<lambda>_. 0)(3 := 8192), slock_m = (\<lambda>_. False), curr_slice_m = 0,
     num_entries_m = 1,
     twentries = blank_memory(8192 := \<lparr> timer_id_m = 1, timeout_m = 350, periodic_m = False,
       valid_m = True, ctxt_m = 4096, cb_m = 1280, nspins_m = 0, slice_m = 3,
       next_m = 0, prev_m = 0 \<rparr>) \<rparr>"
  by (simp add: example_wheel_1_def example_wheel_eq wheel_eval_defs fun_upd_idem)

lemma example_add_timer:
  "add_timer example_wheel 8192 1 350 4096 1280 False 0 = Inr (8192, example_wheel_1)"
  by (simp add: example_wheel_1_eq) (simp add: example_wheel_eq wheel_eval_defs fun_upd_idem)

lemma example_wheel_1_ok: "wheel_ok example_wheel_1"
  by (simp add: example_wheel_1_eq wheel_ok_def)

lemma example_wheel_2_eq:
  "example_wheel_2 = \<lparr> twentry_slab_m = {8192}, slice_intvl_m = 100, thread_safe_m = True,
     nslices_m = 10, slice_head_m = (\<lambda>_. 0)(1 := 8192), slock_m = (\<lambda>_. False), curr_slice_m = 0,
     num_entries_m = 1,
     twentries = blank_memory(8192 := \<lparr> timer_id_m = 1, timeout_m = 2000, periodic_m = False,
       valid_m = False, ctxt_m = 0, cb_m = 0, nspins_m = 2, slice_m = 1,
       next_m = 0, prev_m = 0 \<rparr>) \<rparr>"
  by (simp add: example_wheel_2_def example_wheel_1_eq wheel_eval_defs fun_upd_idem)

lemma example_del_timer_1:
  "del_timer example_wheel_1 8192 = Inr (4096, example_wheel_2)"
  by (simp add: example_wheel_2_def) (simp add: example_wheel_1_eq wheel_eval_defs)

lemma example_del_timer_2:
  "del_timer example_wheel_2 8192 = Inr (0, example_wheel_2)"
  by (simp add: example_wheel_2_eq del_timer_def TWHEEL_LOCK_SLICE_def TWHEEL_UNLOCK_SLICE_def fun_upd_idem)

lemma slice_head_insert [simp]:
  "slice_head_m (insert_timer_m w t) = (slice_head_m w)(slice_m (twentries w t) := t)"
  by (simp add: insert_timer_m_def Let_def)

lemma slock_unlock [simp]:
  "slock_m (TWHEEL_UNLOCK_SLICE w s) =
     (if thread_safe_m w then (slock_m w)(s := False) else slock_m w)"
  by (simp add: TWHEEL_UNLOCK_SLICE_def)

lemma lock_slice_all_free:
  assumes "\<forall>i. \<not> slock_m w i"
  shows "TWHEEL_LOCK_SLICE w s =
         Inr (if thread_safe_m w then w\<lparr>slock_m := (slock_m w)(s := True)\<rparr> else w)"
  using assms by (simp add: lock_slice_free)

lemma delay_delete_m_free:
  assumes free: "\<forall>i. \<not> slock_m w i"
  shows "\<exists>w'. delay_delete_m w t = Inr w' \<and> (\<forall>i. \<not> slock_m w' i) \<and>
           \<not> valid_m (twentries w' t) \<and> ctxt_m (twentries w' t) = 0 \<and>
           slice_m (twentries w' t) =
             next_slice_m w TWHEEL_DELAY_DELETE (slice_m (twentries w t)) True \<and>
           slice_head_m w' (slice_m (twentries w' t)) = t \<and>
           nslices_m w' = nslices_m w \<and> slice_intvl_m w' = slice_intvl_m w \<and>
           curr_slice_m w' = curr_slice_m w \<and> thread_safe_m w' = thread_safe_m w"
  using free
  by (simp add: delay_delete_m_def Let_def lock_slice_all_free)

lemma del_timer_invalid_noop:
  assumes free: "\<forall>i. \<not> slock_m w i" and t: "timer \<noteq> 0"
    and v: "\<not> valid_m (twentries w timer)"
  shows "del_timer w timer = Inr (ctxt_m (twentries w timer), w)"
proof -
  have "w\<lparr>slock_m := (slock_m w)(slice_m (twentries w timer) := False)\<rparr> = w"
    using free by (simp add: fun_upd_idem)
  then show ?thesis
    using t v free
    by (simp add: del_timer_def Let_def lock_slice_all_free TWHEEL_UNLOCK_SLICE_def)
qed

lemma big_wheel_eq:
  "big_wheel = \<lparr> twentry_slab_m = {}, slice_intvl_m = 1, thread_safe_m = False,
     nslices_m = 4294967295, slice_head_m = (\<lambda>_. 0), slock_m = (\<lambda>_. False), curr_slice_m = 0,
     num_entries_m = 0, twentries = blank_memory \<rparr>"
  by (simp add: big_wheel_def factory_def init_def word_le_nat_alt)

lemma big_wheel_1_entry:
  "twentries big_wheel_1 8192 = \<lparr> timer_id_m = 1, timeout_m = 4294967294, periodic_m = False,
     valid_m = True, ctxt_m = 0, cb_m = 1280, nspins_m = 0, slice_m = 4294967294,
     next_m = 0, prev_m = 0 \<rparr>"
  by (simp add: big_wheel_1_def big_wheel_eq add_timer_def next_slice_m_def init_twentry_m_def
      TWHEEL_LOCK_SLICE_def TWHEEL_UNLOCK_SLICE_def insert_timer_m_def set_next_def set_valid_def
      Let_def)

lemma big_wheel_1_ring:
  "nslices_m big_wheel_1 = 4294967295" "slice_intvl_m big_wheel_1 = 1" "curr_slice_m big_wheel_1 = 0"
  by (simp_all add: big_wheel_1_def big_wheel_eq add_timer_def next_slice_m_def
      TWHEEL_LOCK_SLICE_def Let_def)

theorem get_timeout_remaining_wraps_counterexample:
  "(8192 :: ptr) \<noteq> 0 \<and>
   nslices_m big_wheel_1 = 4294967295 \<and> slice_intvl_m big_wheel_1 = 1 \<and>
   curr_slice_m big_wheel_1 = 0 \<and>
   slice_m (twentries big_wheel_1 8192) = 4294967294 \<and>
   nspins_m (twentries big_wheel_1 8192) = 0 \<and>
   timeout_remaining_spec 4294967295 1 0 4294967294 0 = 4294967294 \<and>
   get_timeout_remaining big_wheel_1 8192 = 4294967293 \<and>
   uint (slice_m (twentries big_wheel_1 8192) - curr_slice_m big_wheel_1 + nslices_m big_wheel_1)
     = 4294967293 \<and>
   uint (slice_m (twentries big_wheel_1 8192)) - uint (curr_slice_m big_wheel_1)
     + uint (nslices_m big_wheel_1) = 8589934589"
  by (simp add: big_wheel_1_ring big_wheel_1_entry get_timeout_remaining_def
      timeout_remaining_spec_def)

lemma unat_slice_offset:
  fixes s c N :: "32 word"
  assumes s: "s < N" and c: "c < N" and small: "unat N \<le> 2 ^ 31"
  shows "unat (s - c + N) = unat s + unat N - unat c"
proof -
  have sN: "unat s < unat N" and cN: "unat c < unat N"
    using s c by (simp_all add: word_less_nat_alt)
  have "unat s + unat N < 4294967296" using sN small by simp
  then have a: "unat (s + N) = unat s + unat N" by (simp add: unat_word_ariths)
  have "unat c \<le> unat (s + N)" using a cN by simp
  then have "c \<le> s + N" by (simp add: word_le_nat_alt)
  then have b: "unat (s + N - c) = unat (s + N) - unat c" by (rule unat_sub)
  have e: "s - c + N = s + N - c" by simp
  show ?thesis unfolding e b a ..
qed

lemma get_timeout_remaining_unat:
  assumes ok: "wheel_ok w" and t: "timer \<noteq> 0"
  shows "unat (get_timeout_remaining w timer) =
         unat (nspins_m (twentries w timer)) * (unat (nslices_m w) * unat (slice_intvl_m w)) +
         (unat (slice_m (twentries w timer) - curr_slice_m w + nslices_m w) mod unat (nslices_m w))
           * unat (slice_intvl_m w)"
proof -
  let ?N = "unat (nslices_m w)" and ?g = "unat (slice_intvl_m w)"
  let ?n = "unat (nspins_m (twentries w timer))"
  let ?x = "slice_m (twentries w timer) - curr_slice_m w + nslices_m w"
  have P: "?N * ?g < 4294967296" using ok by (simp add: wheel_ok_def)
  have N0: "0 < ?N" and g0: "0 < ?g" using wheel_ok_pos [OF ok] by simp_all
  have n: "?n < 65536" by (rule unat_lt_2p16)
  have "?n * (?N * ?g) \<le> 65535 * (?N * ?g)" using n by simp
  then have a: "?n * (?N * ?g) < 281474976710656" using P by linarith
  have "unat ?x mod ?N < ?N" using N0 by simp
  then have "(unat ?x mod ?N) * ?g \<le> ?N * ?g" by (simp add: mult_le_mono1)
  then have b: "(unat ?x mod ?N) * ?g < 4294967296" using P by linarith
  have A: "unat (ucast (nspins_m (twentries w timer)) * (ucast (nslices_m w) * slice_intvl_m w) :: 64 word)
           = ?n * (?N * ?g)"
    using a by (simp add: unat_word_ariths(2) [of "ucast (nspins_m (twentries w timer))"]
                 wheel_ok_unat_prod [OF ok] unat_ucast_16_64)
  have B: "unat (ucast (?x mod nslices_m w) * slice_intvl_m w :: 64 word) = (unat ?x mod ?N) * ?g"
    using b by (simp add: unat_word_ariths(2) [of "ucast (?x mod nslices_m w)"]
                 unat_ucast_32_64 unat_mod)
  have "?n * (?N * ?g) + (unat ?x mod ?N) * ?g < 18446744073709551616" using a b by linarith
  then show ?thesis
    using t by (simp add: get_timeout_remaining_def Let_def A B
                 unat_word_ariths(1) [of "ucast (nspins_m (twentries w timer)) * (ucast (nslices_m w) * slice_intvl_m w)"])
qed

text \<open>
  C4, as amended. On a wheel of at most \<open>2^31\<close> slices, for a non-nil handle whose
  entry holds spin count \<open>n\<close> and a slice \<open>s\<close> of the ring, \<open>get_timeout_remaining\<close>
  returns exactly \<open>n\<cdot>(N\<cdot>g) + ((s \<minus> c + N) mod N)\<cdot>g\<close>, and the 32-bit value of
  \<open>s \<minus> c + N\<close> is the exact integer; for the nil handle it returns 0.
\<close>

theorem get_timeout_remaining_exact:
  assumes "wheel_ok w" and "unat (nslices_m w) \<le> 2 ^ 31"
    and "timer \<noteq> 0" and "slice_m (twentries w timer) < nslices_m w"
  shows "uint (get_timeout_remaining w timer) =
           timeout_remaining_spec (uint (nslices_m w)) (uint (slice_intvl_m w))
             (uint (nspins_m (twentries w timer))) (uint (slice_m (twentries w timer)))
             (uint (curr_slice_m w)) \<and>
         uint (slice_m (twentries w timer) - curr_slice_m w + nslices_m w) =
           uint (slice_m (twentries w timer)) - uint (curr_slice_m w) + uint (nslices_m w) \<and>
         get_timeout_remaining w 0 = 0"
proof -
  let ?s = "slice_m (twentries w timer)" and ?c = "curr_slice_m w" and ?N = "nslices_m w"
  have c: "?c < ?N" using assms(1) by (simp add: wheel_ok_def)
  have x: "unat (?s - ?c + ?N) = unat ?s + unat ?N - unat ?c"
    by (rule unat_slice_offset [OF assms(4) c assms(2)])
  have cN: "unat ?c < unat ?N" using c by (simp add: word_less_nat_alt)
  have "int (unat (?s - ?c + ?N)) = int (unat ?s) - int (unat ?c) + int (unat ?N)"
    using x cN by linarith
  then have xi: "uint (?s - ?c + ?N) = uint ?s - uint ?c + uint ?N"
    by (simp only: uint_nat)
  have "uint (get_timeout_remaining w timer) =
        int (unat (nspins_m (twentries w timer)) * (unat ?N * unat (slice_intvl_m w)) +
             (unat (?s - ?c + ?N) mod unat ?N) * unat (slice_intvl_m w))"
    by (simp only: uint_nat get_timeout_remaining_unat [OF assms(1) assms(3)])
  also have "\<dots> = int (unat (nspins_m (twentries w timer))) * (int (unat ?N) * int (unat (slice_intvl_m w))) +
             (int (unat (?s - ?c + ?N)) mod int (unat ?N)) * int (unat (slice_intvl_m w))"
    by (simp only: of_nat_add of_nat_mult zmod_int)
  also have "\<dots> = timeout_remaining_spec (uint ?N) (uint (slice_intvl_m w))
             (uint (nspins_m (twentries w timer))) (uint ?s) (uint ?c)"
    by (simp only: timeout_remaining_spec_def uint_nat [symmetric] xi)
  finally have r: "uint (get_timeout_remaining w timer) =
           timeout_remaining_spec (uint ?N) (uint (slice_intvl_m w))
             (uint (nspins_m (twentries w timer))) (uint ?s) (uint ?c)" .
  have z: "get_timeout_remaining w 0 = 0" by (simp add: get_timeout_remaining_def)
  show ?thesis using r xi z by blast
qed

theorem get_timeout_remaining_exact_witness:
  "wheel_ok example_wheel \<and> unat (nslices_m example_wheel) \<le> 2 ^ 31 \<and>
   uint (get_timeout_remaining (example_wheel\<lparr>twentries := (twentries example_wheel)
      (8192 := blank_entry\<lparr>nspins_m := 2, slice_m := 3\<rparr>), curr_slice_m := 5\<rparr>) 8192) = 2800"
proof -
  let ?w = "example_wheel\<lparr>twentries := (twentries example_wheel)
      (8192 := blank_entry\<lparr>nspins_m := 2, slice_m := 3\<rparr>), curr_slice_m := 5\<rparr>"
  have ok: "wheel_ok ?w" by (simp add: example_wheel_eq wheel_ok_def)
  have small: "unat (nslices_m ?w) \<le> 2 ^ 31" by (simp add: example_wheel_eq)
  have t: "(8192 :: ptr) \<noteq> 0" by simp
  have s: "slice_m (twentries ?w 8192) < nslices_m ?w" by (simp add: example_wheel_eq)
  show ?thesis
    using get_timeout_remaining_exact [OF ok small t s] example_wheel_ok
    by (simp add: example_wheel_eq timeout_remaining_spec_def)
qed

lemma unat_nspins:
  assumes ok: "wheel_ok w"
  shows "unat (ucast (timeout div (ucast (nslices_m w) * slice_intvl_m w)) :: 16 word) =
         (unat timeout div (unat (nslices_m w) * unat (slice_intvl_m w))) mod 65536"
  by (simp add: unat_ucast_64_16 unat_div wheel_ok_unat_prod [OF ok])

lemma remaining_lt_next_spin:
  assumes ok: "wheel_ok w" and t: "timer \<noteq> 0"
  shows "unat (get_timeout_remaining w timer) <
         (unat (nspins_m (twentries w timer)) + 1) * (unat (nslices_m w) * unat (slice_intvl_m w))"
proof -
  let ?N = "unat (nslices_m w)" and ?g = "unat (slice_intvl_m w)"
  let ?x = "unat (slice_m (twentries w timer) - curr_slice_m w + nslices_m w)"
  have N0: "0 < ?N" and g0: "0 < ?g" using wheel_ok_pos [OF ok] by simp_all
  have "?x mod ?N < ?N" using N0 by simp
  then have "(?x mod ?N) * ?g < ?N * ?g" using g0 by simp
  then show ?thesis
    by (simp add: get_timeout_remaining_unat [OF ok t])
qed

lemma wrapped_spins_wait_shorter:
  assumes ok: "wheel_ok w" and t: "timer \<noteq> 0"
    and n: "unat (nspins_m (twentries w timer)) =
            (unat timeout div (unat (nslices_m w) * unat (slice_intvl_m w))) mod 65536"
    and big: "65536 \<le> unat timeout div (unat (nslices_m w) * unat (slice_intvl_m w))"
  shows "unat (nspins_m (twentries w timer)) <
           unat timeout div (unat (nslices_m w) * unat (slice_intvl_m w)) \<and>
         unat (get_timeout_remaining w timer) < unat timeout"
proof -
  let ?P = "unat (nslices_m w) * unat (slice_intvl_m w)"
  let ?n = "unat (nspins_m (twentries w timer))"
  have lt: "?n < 65536" using n by simp
  then have 1: "?n < unat timeout div ?P" using big by linarith
  have "?n + 1 \<le> unat timeout div ?P" using 1 by simp
  then have "(?n + 1) * ?P \<le> (unat timeout div ?P) * ?P" by (rule mult_le_mono1)
  also have "\<dots> \<le> unat timeout" by simp
  finally have "(?n + 1) * ?P \<le> unat timeout" .
  then show ?thesis using 1 remaining_lt_next_spin [OF ok t] by linarith
qed

text \<open>
  C9. The spin count is a 16-bit field: \<open>add_timer\<close> and \<open>upd_timer\<close> store
  \<open>floor(timeout/(N\<cdot>g))\<close> reduced modulo \<open>2^16\<close>. When the quotient is 65536 or
  more, the stored count is smaller than the quotient, and the wait that the entry
  then has (what \<open>get_timeout_remaining\<close> reports for it) is shorter than the timeout
  that was asked for.
\<close>

theorem nspins_truncated_to_16_bits:
  assumes "wheel_ok w"
  shows "(\<forall>h w'. add_timer w a timer_id timeout ctxt cb periodic initial_delay = Inr (h, w') \<and> a \<noteq> 0 \<longrightarrow>
            unat (nspins_m (twentries w' h)) =
              (unat timeout div (unat (nslices_m w) * unat (slice_intvl_m w))) mod 2 ^ 16 \<and>
            (2 ^ 16 \<le> unat timeout div (unat (nslices_m w) * unat (slice_intvl_m w)) \<longrightarrow>
               unat (nspins_m (twentries w' h)) <
                 unat timeout div (unat (nslices_m w) * unat (slice_intvl_m w)) \<and>
               unat (get_timeout_remaining w' h) < unat timeout)) \<and>
         (\<forall>h w'. upd_timer w timer timeout periodic ctxt = Inr (h, w') \<and> timer \<noteq> 0 \<and>
                 valid_m (twentries w timer) \<longrightarrow>
            unat (nspins_m (twentries w' h)) =
              (unat timeout div (unat (nslices_m w) * unat (slice_intvl_m w))) mod 2 ^ 16 \<and>
            (2 ^ 16 \<le> unat timeout div (unat (nslices_m w) * unat (slice_intvl_m w)) \<longrightarrow>
               unat (nspins_m (twentries w' h)) <
                 unat timeout div (unat (nslices_m w) * unat (slice_intvl_m w)) \<and>
               unat (get_timeout_remaining w' h) < unat timeout))"
proof (intro conjI allI impI; elim conjE)
  fix h w'
  assume r: "add_timer w a timer_id timeout ctxt cb periodic initial_delay = Inr (h, w')"
    and a: "a \<noteq> 0"
  note f = add_timer_Inr [OF r a]
  have ok': "wheel_ok w'" using assms by (simp add: wheel_ok_ring [OF f(2,3,4)])
  show n: "unat (nspins_m (twentries w' h)) =
        (unat timeout div (unat (nslices_m w) * unat (slice_intvl_m w))) mod 2 ^ 16"
    by (simp add: f unat_nspins [OF assms])
  assume "2 ^ 16 \<le> unat timeout div (unat (nslices_m w) * unat (slice_intvl_m w))"
  then have big: "65536 \<le> unat timeout div (unat (nslices_m w') * unat (slice_intvl_m w'))"
    by (simp add: f)
  have h0: "h \<noteq> 0" using a f(1) by simp
  from n have n': "unat (nspins_m (twentries w' h)) =
        (unat timeout div (unat (nslices_m w') * unat (slice_intvl_m w'))) mod 65536"
    by (simp add: f)
  from wrapped_spins_wait_shorter [OF ok' h0 n' big]
  show "unat (nspins_m (twentries w' h)) < unat timeout div (unat (nslices_m w) * unat (slice_intvl_m w))"
    and "unat (get_timeout_remaining w' h) < unat timeout"
    by (simp_all add: f)
next
  fix h w'
  assume r: "upd_timer w timer timeout periodic ctxt = Inr (h, w')"
    and t: "timer \<noteq> 0" and v: "valid_m (twentries w timer)"
  note f = upd_timer_Inr [OF r t v]
  have ok': "wheel_ok w'" using assms by (simp add: wheel_ok_ring [OF f(2,3,4)])
  show n: "unat (nspins_m (twentries w' h)) =
        (unat timeout div (unat (nslices_m w) * unat (slice_intvl_m w))) mod 2 ^ 16"
    by (simp add: f unat_nspins [OF assms])
  assume "2 ^ 16 \<le> unat timeout div (unat (nslices_m w) * unat (slice_intvl_m w))"
  then have big: "65536 \<le> unat timeout div (unat (nslices_m w') * unat (slice_intvl_m w'))"
    by (simp add: f)
  have h0: "h \<noteq> 0" using t f(1) by simp
  from n have n': "unat (nspins_m (twentries w' h)) =
        (unat timeout div (unat (nslices_m w') * unat (slice_intvl_m w'))) mod 65536"
    by (simp add: f)
  from wrapped_spins_wait_shorter [OF ok' h0 n' big]
  show "unat (nspins_m (twentries w' h)) < unat timeout div (unat (nslices_m w) * unat (slice_intvl_m w))"
    and "unat (get_timeout_remaining w' h) < unat timeout"
    by (simp_all add: f)
qed

theorem nspins_truncated_to_16_bits_witness:
  "wheel_ok example_wheel \<and> wheel_ok example_wheel_1 \<and>
   (65536350 :: nat) div (10 * 100) = 65536 \<and>
   unat (nspins_m (twentries (snd (projr (add_timer example_wheel 8192 1 65536350 4096 1280 False 0))) 8192)) = 0 \<and>
   unat (get_timeout_remaining (snd (projr (add_timer example_wheel 8192 1 65536350 4096 1280 False 0))) 8192)
     < 65536350 \<and>
   unat (nspins_m (twentries (snd (projr (upd_timer example_wheel_1 8192 65536350 False 4096))) 8192)) = 0 \<and>
   unat (get_timeout_remaining (snd (projr (upd_timer example_wheel_1 8192 65536350 False 4096))) 8192)
     < 65536350"
proof -
  let ?wa = "snd (projr (add_timer example_wheel 8192 1 65536350 4096 1280 False 0))"
  let ?wu = "snd (projr (upd_timer example_wheel_1 8192 65536350 False 4096))"
  have a: "add_timer example_wheel 8192 1 65536350 4096 1280 False 0 = Inr (8192, ?wa)"
    by (simp add: example_wheel_eq wheel_eval_defs)
  have u: "upd_timer example_wheel_1 8192 65536350 False 4096 = Inr (8192, ?wu)"
    by (simp add: example_wheel_1_eq wheel_eval_defs)
  have v: "valid_m (twentries example_wheel_1 8192)" by (simp add: example_wheel_1_eq)
  have q: "(65536350 :: nat) div (10 * 100) = 65536" by simp
  from nspins_truncated_to_16_bits [OF example_wheel_ok, where a = 8192 and timer_id = 1 and timeout = 65536350 and ctxt = 4096 and cb = 1280 and periodic = False and initial_delay = 0]
  have A: "unat (nspins_m (twentries ?wa 8192)) = 0 \<and>
           unat (get_timeout_remaining ?wa 8192) < 65536350"
    using a by (simp add: example_wheel_eq)
  from nspins_truncated_to_16_bits [OF example_wheel_1_ok, where timer = 8192 and timeout = 65536350 and periodic = False and ctxt = 4096]
  have B: "unat (nspins_m (twentries ?wu 8192)) = 0 \<and>
           unat (get_timeout_remaining ?wu 8192) < 65536350"
    using u v by (simp add: example_wheel_1_eq)
  show ?thesis using A B q example_wheel_ok example_wheel_1_ok by blast
qed

lemma drive_wheel_0 [simp]: "drive_wheel 0 = []"
  by (simp add: drive_wheel.simps)

lemma batch_nat:
  "unat (if missed > BATCH_SLICE_SIZE then BATCH_SLICE_SIZE else missed) = min (unat missed) 10"
  by (auto simp: BATCH_SLICE_SIZE_def word_less_nat_alt min_def)

lemma unat_tick_arg:
  "unat (ucast ((if missed > BATCH_SLICE_SIZE then BATCH_SLICE_SIZE else missed) *
          TWHEEL_DEFAULT_SLICE_DURATION) :: 32 word) = min (unat missed) 10 * 250"
proof -
  let ?b = "if missed > BATCH_SLICE_SIZE then BATCH_SLICE_SIZE else missed"
  have b: "unat ?b = min (unat missed) 10" by (rule batch_nat)
  then have "unat ?b * 250 \<le> 2500" by simp
  then have "unat (?b * TWHEEL_DEFAULT_SLICE_DURATION) = unat ?b * 250"
    by (simp add: unat_word_ariths(2) TWHEEL_DEFAULT_SLICE_DURATION_def)
  then show ?thesis using b by (simp add: unat_ucast_64_32)
qed

lemma unat_missed_rest:
  "unat (missed - (if missed > BATCH_SLICE_SIZE then BATCH_SLICE_SIZE else missed)) = unat missed - 10"
  by (auto simp: BATCH_SLICE_SIZE_def word_less_nat_alt unat_sub_if')

text \<open>The batches in the words of the specification: the elapsed periods are used up ten at a time.\<close>

lemma drive_wheel_batches:
  "drive_wheel missed =
     concat (map (\<lambda>k. [Tick (of_nat (min (unat missed - 10 * k) 10 * 250)), PunchHeartbeat])
                 [0 ..< (unat missed + 9) div 10])"
proof (induction missed rule: drive_wheel.induct)
  case (1 missed)
  show ?case
  proof (cases "missed = 0")
    case True
    then show ?thesis by simp
  next
    case False
    let ?b = "if missed > BATCH_SLICE_SIZE then BATCH_SLICE_SIZE else missed"
    let ?n = "unat missed"
    have n0: "0 < ?n" using False by (simp add: unat_gt_0)
    have IH: "drive_wheel (missed - ?b) =
       concat (map (\<lambda>k. [Tick (of_nat (min (unat (missed - ?b) - 10 * k) 10 * 250)), PunchHeartbeat])
                 [0 ..< (unat (missed - ?b) + 9) div 10])"
      using 1 [OF False refl] by simp
    have "min ?n 10 * 250 \<le> 2500" by simp
    then have "min ?n 10 * 250 < 2 ^ LENGTH(32)" by simp
    then have "unat (of_nat (min ?n 10 * 250) :: 32 word) = min ?n 10 * 250"
      by (simp only: unat_of_nat mod_less)
    then have t: "(ucast (?b * TWHEEL_DEFAULT_SLICE_DURATION) :: 32 word) = of_nat (min ?n 10 * 250)"
      by (simp only: word_unat_eq_iff unat_tick_arg)
    have len: "(?n + 9) div 10 = Suc ((?n - 10 + 9) div 10)"
    proof (cases "10 \<le> ?n")
      case True
      then have "?n + 9 = (?n - 10 + 9) + 10" by simp
      then have "(?n + 9) div 10 = ((?n - 10 + 9) + 10) div 10" by simp
      also have "\<dots> = Suc ((?n - 10 + 9) div 10)" by simp
      finally show ?thesis .
    next
      case False
      then have a: "?n - 10 = 0" by simp
      from False n0 have "10 \<le> ?n + 9" "?n + 9 < 20" by simp_all
      then have "(?n + 9) div 10 = 1"
        by (simp add: div_nat_eqI)
      then show ?thesis by (simp add: a)
    qed
    have "[0 ..< (?n + 9) div 10] = 0 # map Suc [0 ..< (?n - 10 + 9) div 10]"
      by (simp add: len upt_conv_Cons map_Suc_upt del: upt_Suc)
    then have "concat (map (\<lambda>k. [Tick (of_nat (min (?n - 10 * k) 10 * 250)), PunchHeartbeat])
                 [0 ..< (?n + 9) div 10]) =
          Tick (of_nat (min ?n 10 * 250)) # PunchHeartbeat #
          concat (map (\<lambda>k. [Tick (of_nat (min (?n - 10 - 10 * k) 10 * 250)), PunchHeartbeat])
                 [0 ..< (?n - 10 + 9) div 10])"
      by (simp add: comp_def)
    moreover have "drive_wheel missed = Tick (ucast (?b * TWHEEL_DEFAULT_SLICE_DURATION)) #
          PunchHeartbeat # drive_wheel (missed - ?b)"
      using False by (subst drive_wheel.simps) (simp add: Let_def)
    ultimately show ?thesis
      by (simp only: IH t unat_missed_rest)
  qed
qed

lemma count_ticks_batches:
  "length (filter is_tick (concat (map (\<lambda>k. [Tick (f k), PunchHeartbeat]) xs))) = length xs"
  by (induction xs) simp_all

lemma tick_batch_slices:
  assumes g: "slice_intvl_m w = TWHEEL_DEFAULT_SLICE_DURATION" and r: "0 < r"
  shows "tick cbs w (of_nat (min r 10 * 250)) = tick_slices cbs (min r 10) w"
proof -
  let ?m = "min r 10 * 250"
  have "?m \<le> 2500" by simp
  then have lt: "?m < 2 ^ LENGTH(32)" by simp
  have u: "unat (of_nat ?m :: 32 word) = ?m"
    using lt by (simp only: unat_of_nat mod_less)
  have ge: "250 \<le> ?m" using r by (simp add: min_def)
  have u64: "unat (ucast (of_nat ?m :: 32 word) :: 64 word) = ?m"
    by (simp only: unat_ucast_32_64 u)
  have nlt: "\<not> (ucast (of_nat ?m :: 32 word) :: 64 word) < slice_intvl_m w"
    using ge by (simp only: word_less_nat_alt u64 g TWHEEL_DEFAULT_SLICE_DURATION_def) simp
  have "unat ((ucast (of_nat ?m :: 32 word) :: 64 word) div slice_intvl_m w) = ?m div 250"
    by (simp only: unat_div u64 g TWHEEL_DEFAULT_SLICE_DURATION_def) simp
  then have "unat (ucast ((ucast (of_nat ?m :: 32 word) :: 64 word) div slice_intvl_m w) :: 32 word)
             = min r 10"
    by (simp add: unat_ucast_64_32)
  then show ?thesis using nlt by (simp only: tick_def if_False)
qed

text \<open>
  C5. When one read of the timer fd reports \<open>missed\<close> elapsed periods, the periodic
  thread calls \<open>tick\<close> \<open>ceil(missed/10)\<close> times, the call for batch \<open>k\<close> charged
  \<open>min(missed - 10\<cdot>k, 10) \<cdot> 250\<close> ms, which on a wheel of 250 ms slices walks that many
  slices, and it punches a heartbeat after each call. For \<open>missed = 25\<close> these are
  three calls, for 10, 10 and 5 slices.
\<close>

theorem periodic_batches:
  "periodic_thread_run [Missed missed] =
     SetReady # concat (map (\<lambda>k. [Tick (of_nat (min (unat missed - 10 * k) 10 * 250)), PunchHeartbeat])
                            [0 ..< (unat missed + 9) div 10]) \<and>
   length (filter is_tick (periodic_thread_run [Missed missed])) = (unat missed + 9) div 10 \<and>
   (\<forall>k cbs w. k < (unat missed + 9) div 10 \<and> slice_intvl_m w = TWHEEL_DEFAULT_SLICE_DURATION \<longrightarrow>
      tick cbs w (of_nat (min (unat missed - 10 * k) 10 * 250)) =
      tick_slices cbs (min (unat missed - 10 * k) 10) w) \<and>
   periodic_thread_run [Missed 25] =
     [SetReady, Tick 2500, PunchHeartbeat, Tick 2500, PunchHeartbeat, Tick 1250, PunchHeartbeat]"
proof -
  have 1: "periodic_thread_run [Missed missed] =
     SetReady # concat (map (\<lambda>k. [Tick (of_nat (min (unat missed - 10 * k) 10 * 250)), PunchHeartbeat])
                            [0 ..< (unat missed + 9) div 10])"
    by (simp add: periodic_thread_run_def drive_wheel_batches)
  have 2: "length (filter is_tick (periodic_thread_run [Missed missed])) = (unat missed + 9) div 10"
    by (simp only: 1 filter.simps is_tick.simps if_False count_ticks_batches length_upt diff_zero)
  have 3: "tick cbs w (of_nat (min (unat missed - 10 * k) 10 * 250)) =
           tick_slices cbs (min (unat missed - 10 * k) 10) w"
    if "k < (unat missed + 9) div 10" and "slice_intvl_m w = TWHEEL_DEFAULT_SLICE_DURATION"
    for k cbs w
  proof -
    have "Suc k \<le> (unat missed + 9) div 10" using that(1) by simp
    then have "Suc k * 10 \<le> unat missed + 9" by (simp only: less_eq_div_iff_mult_less_eq zero_less_numeral)
    then have "0 < unat missed - 10 * k" by simp
    then show ?thesis by (rule tick_batch_slices [OF that(2)])
  qed
  have 4: "periodic_thread_run [Missed 25] =
     [SetReady, Tick 2500, PunchHeartbeat, Tick 2500, PunchHeartbeat, Tick 1250, PunchHeartbeat]"
    by (simp add: periodic_thread_run_def drive_wheel.simps [of 25] drive_wheel.simps [of 15]
        drive_wheel.simps [of 5] BATCH_SLICE_SIZE_def TWHEEL_DEFAULT_SLICE_DURATION_def
        word_less_nat_alt)
  show ?thesis using 1 2 3 4 by blast
qed

theorem periodic_batches_witness:
  "slice_intvl_m periodic_wheel = TWHEEL_DEFAULT_SLICE_DURATION \<and>
   periodic_thread_run [Missed 25] =
     [SetReady, Tick 2500, PunchHeartbeat, Tick 2500, PunchHeartbeat, Tick 1250, PunchHeartbeat] \<and>
   length (filter is_tick (periodic_thread_run [Missed 25])) = 3 \<and>
   tick idle_callbacks periodic_wheel 2500 = tick_slices idle_callbacks 10 periodic_wheel \<and>
   tick idle_callbacks periodic_wheel 1250 = tick_slices idle_callbacks 5 periodic_wheel"
proof -
  have g: "slice_intvl_m periodic_wheel = TWHEEL_DEFAULT_SLICE_DURATION"
    by (simp add: periodic_wheel_def factory_def init_def TWHEEL_DEFAULT_SLICE_DURATION_def
        word_le_nat_alt)
  note p = periodic_batches [of 25]
  have a: "tick idle_callbacks periodic_wheel 2500 = tick_slices idle_callbacks 10 periodic_wheel"
    using p [THEN conjunct2, THEN conjunct2, THEN conjunct1, rule_format, of 0 periodic_wheel idle_callbacks] g
    by simp
  have b: "tick idle_callbacks periodic_wheel 1250 = tick_slices idle_callbacks 5 periodic_wheel"
    using p [THEN conjunct2, THEN conjunct2, THEN conjunct1, rule_format, of 2 periodic_wheel idle_callbacks] g
    by simp
  have c: "length (filter is_tick (periodic_thread_run [Missed 25])) = 3"
    using p [THEN conjunct2, THEN conjunct1] by simp
  show ?thesis using p [THEN conjunct2, THEN conjunct2, THEN conjunct2] a b c g by blast
qed

section \<open>Proofs: slab pool\<close>

lemma find_block_two_blocks_tail:
  "find_block slab_two_blocks 20512 4096 = Some 20480"
  by (simp add: find_block.simps [of _ _ 4096] find_block.simps [of _ _ 20480] slab_two_blocks_def
      word_less_nat_alt)

lemma find_block_two_blocks_head:
  "find_block slab_two_blocks 4128 4096 = Some 4096"
  by (simp add: find_block.simps [of _ _ 4096] slab_two_blocks_def word_less_nat_alt)

lemma slab_free_tail:
  "slab_free slab_two_blocks 20516 =
     Some (Inr (slab_two_blocks\<lparr>
       elem_link := (elem_link slab_two_blocks)(20516 := 20544),
       sblocks := (sblocks slab_two_blocks)(20480 :=
          \<lparr> bprev_m = 4096, bnext_m = 0, free_head_m = 20512, bnum_in_use_m = 0 \<rparr>),
       emeta_in_use := (emeta_in_use slab_two_blocks)(20512 := False),
       num_frees_m := 1, num_in_use_m := 1\<rparr>))"
proof -
  have e: "(20516 :: ptr) - SLAB_ELEM_META_SIZE = 20512" by (simp add: SLAB_ELEM_META_SIZE_def)
  have h: "block_head_m slab_two_blocks = 4096" by (simp add: slab_two_blocks_def)
  have u: "emeta_in_use slab_two_blocks 20512" by (simp add: slab_two_blocks_def)
  show ?thesis
    unfolding slab_free_def free_m_def e h Let_def
    by (simp add: u find_block_two_blocks_tail) (simp add: slab_two_blocks_def)
qed

text \<open>
  C6 as it is stated fails: in the slab of two blocks, freeing the only element in use
  of the older block drops its count to zero while the head block remains, and the
  block is not released.
\<close>

theorem slab_free_tail_block_counterexample:
  "grow_on_demand_m slab_two_blocks \<and> num_blocks_m slab_two_blocks = 2 \<and>
   allocated slab_two_blocks = {4096, 20480} \<and>
   bnum_in_use_m (sblocks slab_two_blocks 20480) = 1 \<and>
   slab_free slab_two_blocks 20516 = Some (Inr slab_two_blocks_freed) \<and>
   bnum_in_use_m (sblocks slab_two_blocks_freed 20480) = 0 \<and>
   num_blocks_m slab_two_blocks_freed = 2 \<and>
   allocated slab_two_blocks_freed = {4096, 20480}"
proof -
  have f: "slab_two_blocks_freed = slab_two_blocks\<lparr>
       elem_link := (elem_link slab_two_blocks)(20516 := 20544),
       sblocks := (sblocks slab_two_blocks)(20480 :=
          \<lparr> bprev_m = 4096, bnext_m = 0, free_head_m = 20512, bnum_in_use_m = 0 \<rparr>),
       emeta_in_use := (emeta_in_use slab_two_blocks)(20512 := False),
       num_frees_m := 1, num_in_use_m := 1\<rparr>"
    by (simp add: slab_two_blocks_freed_def slab_free_tail)
  have 1: "slab_free slab_two_blocks 20516 = Some (Inr slab_two_blocks_freed)"
    by (simp only: f slab_free_tail)
  have 2: "bnum_in_use_m (sblocks slab_two_blocks_freed 20480) = 0"
    "num_blocks_m slab_two_blocks_freed = 2" "allocated slab_two_blocks_freed = {4096, 20480}"
    by (simp_all add: f) (simp_all add: slab_two_blocks_def)
  have 3: "grow_on_demand_m slab_two_blocks" "num_blocks_m slab_two_blocks = 2"
    "allocated slab_two_blocks = {4096, 20480}" "bnum_in_use_m (sblocks slab_two_blocks 20480) = 1"
    by (simp_all add: slab_two_blocks_def)
  show ?thesis using 1 2 3 by blast
qed

lemma free_block_m_allocated [simp]:
  "allocated (free_block_m s block) = allocated s - {block}"
  "num_blocks_m (free_block_m s block) = num_blocks_m s - 1"
  by (simp_all add: free_block_m_def Let_def)

text \<open>
  C6, as amended. On a slab in grow-on-demand mode, \<open>slab::free\<close> of an element of
  block \<open>b\<close> releases \<open>b\<close> to the underlying allocator precisely when the free drops
  the in-use count of \<open>b\<close> to zero and \<open>b\<close> has a successor in the list of blocks (it
  is not the last block of the list); it releases no other block.
\<close>

theorem slab_free_releases_block:
  assumes "grow_on_demand_m s"
    and "slab_free s elem = Some (Inr s')"
    and "find_block s (elem - SLAB_ELEM_META_SIZE) (block_head_m s) = Some block"
  shows "allocated s' =
           (if bnum_in_use_m (sblocks s block) - 1 = 0 \<and> bnext_m (sblocks s block) \<noteq> 0
            then allocated s - {block} else allocated s) \<and>
         num_blocks_m s' =
           (if bnum_in_use_m (sblocks s block) - 1 = 0 \<and> bnext_m (sblocks s block) \<noteq> 0
            then num_blocks_m s - 1 else num_blocks_m s)"
  using assms
  by (auto simp: slab_free_def free_m_def Let_def split: if_splits)

theorem slab_free_releases_block_witness:
  "grow_on_demand_m slab_two_blocks \<and>
   slab_free slab_two_blocks 4132 = Some (Inr slab_head_freed) \<and>
   find_block slab_two_blocks (4132 - SLAB_ELEM_META_SIZE) (block_head_m slab_two_blocks) = Some 4096 \<and>
   allocated slab_head_freed = {20480} \<and> num_blocks_m slab_head_freed = 1 \<and>
   allocated slab_two_blocks_freed = {4096, 20480}"
proof -
  have e: "(4132 :: ptr) - SLAB_ELEM_META_SIZE = 4128" "(20516 :: ptr) - SLAB_ELEM_META_SIZE = 20512"
    by (simp_all add: SLAB_ELEM_META_SIZE_def)
  have h: "block_head_m slab_two_blocks = 4096" by (simp add: slab_two_blocks_def)
  have g: "grow_on_demand_m slab_two_blocks" by (simp add: slab_two_blocks_def)
  have u: "emeta_in_use slab_two_blocks 4128" by (simp add: slab_two_blocks_def)
  have "\<exists>x. slab_free slab_two_blocks 4132 = Some (Inr x)"
    unfolding slab_free_def free_m_def e h Let_def
    by (simp add: u find_block_two_blocks_head)
  then have r: "slab_free slab_two_blocks 4132 = Some (Inr slab_head_freed)"
    by (auto simp: slab_head_freed_def)
  have fb: "find_block slab_two_blocks (4132 - SLAB_ELEM_META_SIZE) (block_head_m slab_two_blocks) = Some 4096"
    by (simp only: e h find_block_two_blocks_head)
  have r2: "slab_free slab_two_blocks 20516 = Some (Inr slab_two_blocks_freed)"
    by (simp add: slab_two_blocks_freed_def slab_free_tail)
  have fb2: "find_block slab_two_blocks (20516 - SLAB_ELEM_META_SIZE) (block_head_m slab_two_blocks) = Some 20480"
    by (simp only: e h find_block_two_blocks_tail)
  have a: "allocated slab_head_freed = {20480} \<and> num_blocks_m slab_head_freed = 1"
    using slab_free_releases_block [OF g r fb] by (auto simp: slab_two_blocks_def)
  have b: "allocated slab_two_blocks_freed = {4096, 20480}"
    using slab_free_releases_block [OF g r2 fb2] by (auto simp: slab_two_blocks_def)
  show ?thesis using g r fb a b by blast
qed

section \<open>Proofs: event threads\<close>

lemma status_at_simps:
  "fst (status_at st k) = (case status_m st k of None \<Rightarrow> THREAD_DOWN | Some v \<Rightarrow> v)"
  "g_event_thread_table (snd (status_at st k)) = g_event_thread_table st"
  "subscriptions_m (snd (status_at st k)) = subscriptions_m st"
  "status_m (snd (status_at st k)) k = Some (case status_m st k of None \<Rightarrow> THREAD_DOWN | Some v \<Rightarrow> v)"
  by (simp_all add: status_at_def split: option.splits)

lemma subscriptions_at_simps:
  "fst (subscriptions_at st k) = (case subscriptions_m st k of None \<Rightarrow> [] | Some v \<Rightarrow> v)"
  "g_event_thread_table (snd (subscriptions_at st k)) = g_event_thread_table st"
  "status_m (snd (subscriptions_at st k)) = status_m st"
  by (simp_all add: subscriptions_at_def split: option.splits)

lemma insort_set_member: "x \<in> set (insort_set x xs)"
  by (simp add: insort_set_def set_insort_key)

lemma subscribe_up:
  assumes "subscriber \<noteq> target" "subscriber \<le> MAX_THREAD_ID" "target \<le> MAX_THREAD_ID"
    and up: "status_m st target = Some THREAD_UP"
    and reg: "g_event_thread_table st subscriber = Some t"
  shows "\<exists>st' subs. subscribe True st subscriber target = Inr st' \<and>
           g_event_thread_table st' =
             (g_event_thread_table st)(subscriber \<mapsto>
                t\<lparr>inbox := inbox t @ [UPDOWN_MSG target THREAD_UP], async_sent := Suc (async_sent t)\<rparr>) \<and>
           subscriptions_m st' target = Some subs \<and> subscriber \<in> set subs \<and>
           status_m st' = status_m st"
  using assms
  by (simp add: subscribe_def status_at_def subscriptions_at_def handle_thread_up_def
      thread_message_send_def insort_set_member split: option.splits)

lemma subscribe_not_up:
  assumes "subscriber \<noteq> target" "subscriber \<le> MAX_THREAD_ID" "target \<le> MAX_THREAD_ID"
    and down: "status_m st target \<noteq> Some THREAD_UP"
  shows "\<exists>st' subs. subscribe alloc_ok st subscriber target = Inr st' \<and>
           g_event_thread_table st' = g_event_thread_table st \<and>
           subscriptions_m st' target = Some subs \<and> subscriber \<in> set subs"
proof (cases "status_m st target")
  case None
  then show ?thesis using assms
    by (simp add: subscribe_def status_at_def subscriptions_at_def insort_set_member
        split: option.splits)
next
  case (Some v)
  then have "v = THREAD_DOWN" using down by (cases v) simp_all
  then show ?thesis using assms Some
    by (simp add: subscribe_def status_at_def subscriptions_at_def insort_set_member
        split: option.splits)
qed

lemma notify_subscribers_other:
  assumes "notify_subscribers alloc_ok st thread_id subs = Inr st'" and "s \<notin> set subs"
  shows "g_event_thread_table st' s = g_event_thread_table st s \<and> status_m st' = status_m st"
  using assms
proof (induction subs arbitrary: st)
  case Nil
  then show ?case by simp
next
  case (Cons x xs)
  from Cons.prems(1) obtain t st1 where
    t: "g_event_thread_table st x = Some t"
    and h: "handle_thread_up alloc_ok st x t thread_id = Inr st1"
    and r: "notify_subscribers alloc_ok st1 thread_id xs = Inr st'"
    by (auto split: option.splits sum.splits)
  from h have 1: "g_event_thread_table st1 s = g_event_thread_table st s" "status_m st1 = status_m st"
    using Cons.prems(2) by (auto simp: handle_thread_up_def split: if_splits)
  from Cons.IH [OF r] Cons.prems(2) show ?case by (simp add: 1)
qed

lemma up_other:
  assumes u: "up alloc_ok st target = Inr st1"
    and ns: "\<forall>subs. subscriptions_m st target = Some subs \<longrightarrow> subscriber \<notin> set subs"
  shows "g_event_thread_table st1 subscriber = g_event_thread_table st subscriber \<and>
         status_m st1 target = Some THREAD_UP"
proof -
  define st2 where "st2 = (snd (status_at st target))\<lparr>status_m := (status_m (snd (status_at st target)))(target \<mapsto> THREAD_UP)\<rparr>"
  define subs where "subs = fst (subscriptions_at st2 target)"
  define st3 where "st3 = snd (subscriptions_at st2 target)"
  from u have n: "notify_subscribers alloc_ok st3 target subs = Inr st1"
    by (simp add: up_def Let_def split_beta st2_def subs_def st3_def split: if_splits)
  have "subs = (case subscriptions_m st target of None \<Rightarrow> [] | Some v \<Rightarrow> v)"
    by (simp add: subs_def st2_def subscriptions_at_simps status_at_simps)
  then have "subscriber \<notin> set subs" using ns by (auto split: option.splits)
  from notify_subscribers_other [OF n this]
  show ?thesis
    by (simp add: st3_def st2_def subscriptions_at_simps status_at_simps)
qed

text \<open>
  C7. For a subscriber other than the target, both ids at most 255: when the target
  is marked UP and the subscriber is registered, \<open>subscribe(S, T)\<close> appends exactly one
  UP notification for \<open>T\<close> to the inbox of \<open>S\<close> (and wakes it); when the target is not
  marked UP it enqueues nothing; either way \<open>S\<close> is among the subscribers of \<open>T\<close>
  afterwards. So when \<open>up(T)\<close> runs before \<open>S\<close> has subscribed and \<open>subscribe(S, T)\<close>
  runs after it, the inbox of \<open>S\<close> gets exactly one UP notification for \<open>T\<close>.
\<close>

theorem subscribe_after_up_notifies_once:
  assumes "subscriber \<noteq> target" and "subscriber \<le> MAX_THREAD_ID" and "target \<le> MAX_THREAD_ID"
    and "g_event_thread_table st subscriber = Some t"
  shows "(status_m st target = Some THREAD_UP \<longrightarrow>
            (\<exists>st' subs. subscribe True st subscriber target = Inr st' \<and>
               g_event_thread_table st' subscriber =
                 Some (t\<lparr>inbox := inbox t @ [UPDOWN_MSG target THREAD_UP],
                         async_sent := Suc (async_sent t)\<rparr>) \<and>
               subscriptions_m st' target = Some subs \<and> subscriber \<in> set subs)) \<and>
         (status_m st target \<noteq> Some THREAD_UP \<longrightarrow>
            (\<exists>st' subs. subscribe True st subscriber target = Inr st' \<and>
               g_event_thread_table st' subscriber = Some t \<and>
               subscriptions_m st' target = Some subs \<and> subscriber \<in> set subs)) \<and>
         (\<forall>st1. up True st target = Inr st1 \<and>
               (\<forall>subs. subscriptions_m st target = Some subs \<longrightarrow> subscriber \<notin> set subs) \<longrightarrow>
            (\<exists>st2 t2. subscribe True st1 subscriber target = Inr st2 \<and>
               g_event_thread_table st2 subscriber = Some t2 \<and>
               inbox t2 = inbox t @ [UPDOWN_MSG target THREAD_UP] \<and>
               up_notifications st2 subscriber target =
                 up_notifications st subscriber target @ [UPDOWN_MSG target THREAD_UP]))"
proof (intro conjI impI allI)
  assume "status_m st target = Some THREAD_UP"
  from subscribe_up [OF assms(1,2,3) this assms(4)]
  show "\<exists>st' subs. subscribe True st subscriber target = Inr st' \<and>
               g_event_thread_table st' subscriber =
                 Some (t\<lparr>inbox := inbox t @ [UPDOWN_MSG target THREAD_UP],
                         async_sent := Suc (async_sent t)\<rparr>) \<and>
               subscriptions_m st' target = Some subs \<and> subscriber \<in> set subs"
    by auto
next
  assume "status_m st target \<noteq> Some THREAD_UP"
  from subscribe_not_up [OF assms(1,2,3) this, of True]
  show "\<exists>st' subs. subscribe True st subscriber target = Inr st' \<and>
               g_event_thread_table st' subscriber = Some t \<and>
               subscriptions_m st' target = Some subs \<and> subscriber \<in> set subs"
    using assms(4) by auto
next
  fix st1
  assume a: "up True st target = Inr st1 \<and>
             (\<forall>subs. subscriptions_m st target = Some subs \<longrightarrow> subscriber \<notin> set subs)"
  from up_other [of True st target st1 subscriber] a
  have t1: "g_event_thread_table st1 subscriber = Some t" and s1: "status_m st1 target = Some THREAD_UP"
    using assms(4) by auto
  from subscribe_up [OF assms(1,2,3) s1 t1] obtain st2 where
    r: "subscribe True st1 subscriber target = Inr st2"
    and g: "g_event_thread_table st2 subscriber =
            Some (t\<lparr>inbox := inbox t @ [UPDOWN_MSG target THREAD_UP], async_sent := Suc (async_sent t)\<rparr>)"
    by auto
  show "\<exists>st2 t2. subscribe True st1 subscriber target = Inr st2 \<and>
               g_event_thread_table st2 subscriber = Some t2 \<and>
               inbox t2 = inbox t @ [UPDOWN_MSG target THREAD_UP] \<and>
               up_notifications st2 subscriber target =
                 up_notifications st subscriber target @ [UPDOWN_MSG target THREAD_UP]"
    using r g assms(4) by (simp add: up_notifications_def)
qed

lemma example_up:
  "up True example_event_state 2 = Inr example_event_state_1"
proof -
  have "\<exists>x. up True example_event_state 2 = Inr x"
    by (simp add: up_def example_event_state_def status_at_def subscriptions_at_def
        MAX_THREAD_ID_def word_le_nat_alt)
  then show ?thesis by (auto simp: example_event_state_1_def)
qed

theorem subscribe_after_up_notifies_once_witness:
  "(1 :: 32 word) \<noteq> 2 \<and> (1 :: 32 word) \<le> MAX_THREAD_ID \<and> (2 :: 32 word) \<le> MAX_THREAD_ID \<and>
   g_event_thread_table example_event_state 1 = Some \<lparr>inbox = [], async_sent = 0\<rparr> \<and>
   up True example_event_state 2 = Inr example_event_state_1 \<and>
   subscribe True example_event_state_1 1 2 = Inr example_event_state_2 \<and>
   up_notifications example_event_state 1 2 = [] \<and>
   up_notifications example_event_state_2 1 2 = [UPDOWN_MSG 2 THREAD_UP]"
proof -
  have a: "(1 :: 32 word) \<noteq> 2" "(1 :: 32 word) \<le> MAX_THREAD_ID" "(2 :: 32 word) \<le> MAX_THREAD_ID"
    by (simp_all add: MAX_THREAD_ID_def word_le_nat_alt)
  have r: "g_event_thread_table example_event_state 1 = Some \<lparr>inbox = [], async_sent = 0\<rparr>"
    by (simp add: example_event_state_def)
  have ns: "\<forall>subs. subscriptions_m example_event_state 2 = Some subs \<longrightarrow> 1 \<notin> set subs"
    by (simp add: example_event_state_def)
  have n0: "up_notifications example_event_state 1 2 = []"
    by (simp add: up_notifications_def example_event_state_def)
  from subscribe_after_up_notifies_once [OF a r, THEN conjunct2, THEN conjunct2, rule_format,
      of example_event_state_1] example_up ns
  obtain st2 where s: "subscribe True example_event_state_1 1 2 = Inr st2"
    and u: "up_notifications st2 1 2 = up_notifications example_event_state 1 2 @ [UPDOWN_MSG 2 THREAD_UP]"
    by blast
  from s have s': "subscribe True example_event_state_1 1 2 = Inr example_event_state_2"
    by (simp add: example_event_state_2_def)
  with s have "st2 = example_event_state_2" by simp
  with u n0 have f: "up_notifications example_event_state_2 1 2 = [UPDOWN_MSG 2 THREAD_UP]" by simp
  show ?thesis by (intro conjI) (rule a r example_up s' n0 f)+
qed

text \<open>
  C10. The global \<open>message_send\<close> guards its arguments by assertions only: with a
  thread id above 255, or with no event thread registered in that slot, the call
  ends in a failed assertion (the process aborts, nothing is returned to the
  caller). When it returns, both assertions held, and the message was enqueued as
  a \<open>USER_MSG\<close> in the inbox of that thread and its async watcher woken, once.
\<close>

theorem message_send_asserts:
  "(\<not> thread_id \<le> MAX_THREAD_ID \<or> g_event_thread_table st thread_id = None \<longrightarrow>
      message_send alloc_ok st thread_id message = Inl AssertionFailed) \<and>
   (\<forall>st'. message_send alloc_ok st thread_id message = Inr st' \<longrightarrow>
      unat thread_id \<le> 255 \<and>
      (\<exists>t. g_event_thread_table st thread_id = Some t \<and>
           st' = st\<lparr>g_event_thread_table := (g_event_thread_table st)
                   (thread_id \<mapsto> t\<lparr>inbox := inbox t @ [USER_MSG message],
                                      async_sent := Suc (async_sent t)\<rparr>)\<rparr>)) \<and>
   (\<forall>t. thread_id \<le> MAX_THREAD_ID \<and> g_event_thread_table st thread_id = Some t \<longrightarrow>
      message_send True st thread_id message =
        Inr (st\<lparr>g_event_thread_table := (g_event_thread_table st)
                (thread_id \<mapsto> t\<lparr>inbox := inbox t @ [USER_MSG message],
                                   async_sent := Suc (async_sent t)\<rparr>)\<rparr>))"
proof (intro conjI impI allI)
  assume "\<not> thread_id \<le> MAX_THREAD_ID \<or> g_event_thread_table st thread_id = None"
  then show "message_send alloc_ok st thread_id message = Inl AssertionFailed"
    by (auto simp: message_send_def)
next
  fix st'
  assume r: "message_send alloc_ok st thread_id message = Inr st'"
  then have le: "thread_id \<le> MAX_THREAD_ID"
    by (simp add: message_send_def split: if_splits)
  then show "unat thread_id \<le> 255"
    by (simp add: MAX_THREAD_ID_def word_le_nat_alt)
  from r le obtain t where t: "g_event_thread_table st thread_id = Some t"
    by (cases "g_event_thread_table st thread_id") (simp_all add: message_send_def)
  from r le t have "st' = st\<lparr>g_event_thread_table := (g_event_thread_table st)
                   (thread_id \<mapsto> t\<lparr>inbox := inbox t @ [USER_MSG message],
                                      async_sent := Suc (async_sent t)\<rparr>)\<rparr>"
    by (simp add: message_send_def thread_message_send_def split: if_splits)
  with t show "\<exists>t. g_event_thread_table st thread_id = Some t \<and>
           st' = st\<lparr>g_event_thread_table := (g_event_thread_table st)
                   (thread_id \<mapsto> t\<lparr>inbox := inbox t @ [USER_MSG message],
                                      async_sent := Suc (async_sent t)\<rparr>)\<rparr>"
    by blast
next
  fix t
  assume "thread_id \<le> MAX_THREAD_ID \<and> g_event_thread_table st thread_id = Some t"
  then show "message_send True st thread_id message =
        Inr (st\<lparr>g_event_thread_table := (g_event_thread_table st)
                (thread_id \<mapsto> t\<lparr>inbox := inbox t @ [USER_MSG message],
                                   async_sent := Suc (async_sent t)\<rparr>)\<rparr>)"
    by (simp add: message_send_def thread_message_send_def)
qed

theorem message_send_asserts_witness:
  "message_send True example_event_state 256 77 = Inl AssertionFailed \<and>
   message_send True example_event_state 3 77 = Inl AssertionFailed \<and>
   message_send True example_event_state 1 77 =
     Inr (example_event_state\<lparr>g_event_thread_table := (g_event_thread_table example_event_state)
            (1 \<mapsto> \<lparr>inbox = [USER_MSG 77], async_sent = 1\<rparr>)\<rparr>)"
proof -
  have a: "\<not> (256 :: 32 word) \<le> MAX_THREAD_ID" "(1 :: 32 word) \<le> MAX_THREAD_ID"
    by (simp_all add: MAX_THREAD_ID_def word_le_nat_alt)
  have b: "g_event_thread_table example_event_state 3 = None"
    "g_event_thread_table example_event_state 1 = Some \<lparr>inbox = [], async_sent = 0\<rparr>"
    by (simp_all add: example_event_state_def)
  have 1: "message_send True example_event_state 256 77 = Inl AssertionFailed"
    using message_send_asserts [of 256 example_event_state True 77, THEN conjunct1] a(1) by blast
  have 2: "message_send True example_event_state 3 77 = Inl AssertionFailed"
    using message_send_asserts [of 3 example_event_state True 77, THEN conjunct1] b(1) by blast
  have 3: "message_send True example_event_state 1 77 =
     Inr (example_event_state\<lparr>g_event_thread_table := (g_event_thread_table example_event_state)
            (1 \<mapsto> \<lparr>inbox = [USER_MSG 77], async_sent = 1\<rparr>)\<rparr>)"
    using message_send_asserts [of 1 example_event_state True 77, THEN conjunct2, THEN conjunct2,
        rule_format, of "\<lparr>inbox = [], async_sent = 0\<rparr>"] a(2) b(2)
    by simp
  show ?thesis by (intro conjI) (rule 1 2 3)+
qed

section \<open>Proofs: the linkage invariant of the wheel\<close>

lemma dlist_frame:
  assumes "\<forall>x \<in> set xs. next_m (m' x) = next_m (m x) \<and> prev_m (m' x) = prev_m (m x)"
  shows "dlist m' pr p xs = dlist m pr p xs"
  using assms by (induction xs arbitrary: pr p) simp_all

lemma dlist_nonzero: "dlist m pr p xs \<Longrightarrow> 0 \<notin> set xs"
  by (induction xs arbitrary: pr p) auto

lemma dlist_head: "dlist m pr p xs \<Longrightarrow> p = (if xs = [] then 0 else hd xs)"
  by (cases xs) simp_all

lemma dlist_split:
  assumes "dlist m pr p (ys @ x # zs)"
  shows "prev_m (m x) = (if ys = [] then pr else last ys)"
    and "next_m (m x) = (if zs = [] then 0 else hd zs)"
    and "dlist m x (next_m (m x)) zs"
  using assms
proof (induction ys arbitrary: pr p)
  case Nil
  { case 1 then show ?case by simp }
  { case 2 then show ?case by (cases zs) simp_all }
  { case 3 then show ?case by simp }
next
  case (Cons y ys)
  { case 1 with Cons.IH(1) [of y "next_m (m y)"] show ?case by simp }
  { case 2 with Cons.IH(2) [of y "next_m (m y)"] show ?case by simp }
  { case 3 with Cons.IH(3) [of y "next_m (m y)"] show ?case by simp }
qed

text \<open>Unlinking inside a list: the two pointer writes of \<open>unlink_timer_\<close>.\<close>

lemma dlist_unlink:
  assumes "dlist m pr p (ys @ x # zs)" and "distinct (ys @ x # zs)"
    and "pr \<notin> set (ys @ x # zs)"
  defines "n \<equiv> next_m (m x)" and "q \<equiv> prev_m (m x)"
  defines "m1 \<equiv> (if n \<noteq> 0 then set_prev m n q else m)"
  shows "dlist (set_next m1 q n) pr (if ys = [] then n else p) (ys @ zs)"
  using assms(1,2,3)
proof (induction ys arbitrary: pr p)
  case Nil
  then have px: "p = x" and x0: "x \<noteq> 0" and q: "q = pr" and dz: "dlist m x n zs"
    by (simp_all add: n_def q_def)
  have prx: "pr \<noteq> x" and przs: "pr \<notin> set zs" and xzs: "x \<notin> set zs" and dzs: "distinct zs"
    using Nil by auto
  show ?case
  proof (cases zs)
    case Nil
    then show ?thesis using dz by simp
  next
    case (Cons z zs')
    then have nz: "n = z" and z0: "z \<noteq> 0" and dz': "dlist m z (next_m (m z)) zs'"
      using dz by simp_all
    have zzs: "z \<notin> set zs'" and pz: "pr \<noteq> z" and przs': "pr \<notin> set zs'"
      using dzs przs Cons by auto
    have "dlist (set_next m1 q n) z (next_m (m z)) zs' = dlist m z (next_m (m z)) zs'"
      by (rule dlist_frame) (use zzs przs' z0 in \<open>auto simp: m1_def nz q\<close>)
    then show ?thesis using Cons dz' z0 pz
      by (simp add: m1_def nz q)
  qed
next
  case (Cons y ys)
  let ?l = "ys @ x # zs"
  from Cons.prems have py: "p = y" and y0: "y \<noteq> 0" and pv: "prev_m (m y) = pr"
    and d: "dlist m y (next_m (m y)) ?l" and dist: "distinct ?l" and yl: "y \<notin> set ?l"
    and pry: "pr \<noteq> y"
    by auto
  note IH = Cons.IH [OF d dist yl]
  note sp = dlist_split [OF d]
  have q: "q = (if ys = [] then y else last ys)" using sp(1) by (simp add: q_def)
  have n: "n = (if zs = [] then 0 else hd zs)" using sp(2) by (simp add: n_def)
  have ny: "n \<noteq> 0 \<longrightarrow> n \<noteq> y" using n yl by (cases zs) auto
  have prev_y: "prev_m (set_next m1 q n y) = pr" using ny pv by (auto simp: m1_def)
  have "ys \<noteq> [] \<longrightarrow> last ys \<noteq> y" using yl by (cases ys rule: rev_cases) auto
  then have next_y: "next_m (set_next m1 q n y) = (if ys = [] then n else next_m (m y))"
    using q by (auto simp: m1_def)
  show ?case using IH y0 py prev_y next_y by simp
qed

text \<open>Pushing at the head: the pointer writes of \<open>insert_timer_\<close>.\<close>

lemma dlist_push:
  assumes "dlist m 0 h xs" and "distinct xs" and "x \<notin> set xs" and "x \<noteq> 0"
    and "prev_m (m x) = 0"
  defines "m1 \<equiv> set_next m x h"
  defines "m2 \<equiv> (if h \<noteq> 0 then set_prev m1 h x else m1)"
  shows "dlist m2 0 x (x # xs)"
proof (cases xs)
  case Nil
  then have "h = 0" using assms(1) by simp
  then show ?thesis using Nil assms(4,5) by (simp add: m2_def m1_def)
next
  case (Cons z zs)
  then have hz: "h = z" and z0: "z \<noteq> 0" and dz: "dlist m z (next_m (m z)) zs"
    using assms(1) by simp_all
  have xz: "x \<noteq> z" and xzs: "x \<notin> set zs" and zzs: "z \<notin> set zs"
    using assms(2,3) Cons by auto
  have "dlist m2 z (next_m (m z)) zs = dlist m z (next_m (m z)) zs"
    by (rule dlist_frame) (use xzs zzs in \<open>auto simp: m2_def m1_def hz\<close>)
  then show ?thesis using Cons dz z0 xz assms(4,5)
    by (simp add: m2_def m1_def hz)
qed

lemma linked_iff:
  "linked w sl \<longleftrightarrow> lists_ok w sl \<and> twentry_slab_m w = (\<Union>i. set (sl i))"
  by (auto simp: linked_def lists_ok_def)

lemma total_linked_upd:
  assumes "s < nslices_m w"
  shows "total_linked w (sl(s := ys)) + length (sl s) = total_linked w sl + length ys"
proof -
  let ?A = "{i. i < nslices_m w}"
  have f: "finite ?A" by simp
  have s: "s \<in> ?A" using assms by simp
  have 1: "(\<Sum>i\<in>?A. length ((sl(s := ys)) i)) =
           length ys + (\<Sum>i\<in>?A - {s}. length ((sl(s := ys)) i))"
    using sum.remove [OF f s, of "\<lambda>i. length ((sl(s := ys)) i)"] by simp
  have 2: "(\<Sum>i\<in>?A. length (sl i)) = length (sl s) + (\<Sum>i\<in>?A - {s}. length (sl i))"
    using sum.remove [OF f s, of "\<lambda>i. length (sl i)"] by simp
  have 3: "(\<Sum>i\<in>?A - {s}. length ((sl(s := ys)) i)) = (\<Sum>i\<in>?A - {s}. length (sl i))"
    by (rule sum.cong) auto
  show ?thesis unfolding total_linked_def 1 2 3 by simp
qed

lemma total_linked_ring:
  "nslices_m w' = nslices_m w \<Longrightarrow> total_linked w' sl = total_linked w sl"
  by (simp add: total_linked_def)

lemma lists_ok_same_links:
  assumes "same_links w w'"
  shows "lists_ok w' sl = lists_ok w sl"
proof -
  have d: "dlist (twentries w') 0 p xs = dlist (twentries w) 0 p xs" for p xs
    by (rule dlist_frame) (use assms in \<open>simp add: same_links_def\<close>)
  have t: "total_linked w' sl = total_linked w sl"
    by (rule total_linked_ring) (use assms in \<open>simp add: same_links_def\<close>)
  show ?thesis using assms
    by (simp add: lists_ok_def d t same_links_def)
qed

lemma detached_same_links:
  assumes "same_links w w'" and "detached w sl x"
  shows "detached w' sl x"
  using assms lists_ok_same_links [OF assms(1), of sl]
  by (simp add: detached_def same_links_def)

lemma linked_same_links:
  assumes "same_links w w'" and "linked w sl"
  shows "linked w' sl"
  using assms lists_ok_same_links [OF assms(1), of sl]
  by (simp add: linked_iff same_links_def)

lemma lists_ok_members:
  assumes "lists_ok w sl" and "x \<in> set (sl i)"
  shows "i < nslices_m w" "slice_m (twentries w x) = i" "x \<noteq> 0"
proof -
  show i: "i < nslices_m w" using assms by (auto simp: lists_ok_def)
  show "slice_m (twentries w x) = i" using assms i by (auto simp: lists_ok_def)
  have "dlist (twentries w) 0 (slice_head_m w i) (sl i)" using assms(1) i by (simp add: lists_ok_def)
  from dlist_nonzero [OF this] show "x \<noteq> 0" using assms(2) by auto
qed

lemma lists_ok_unlink:
  assumes ok: "lists_ok w sl" and x: "x \<in> set (sl s)"
  shows "lists_ok (unlink_timer_m w x) (sl(s := remove1 x (sl s)))"
proof -
  let ?m = "twentries w"
  note mem = lists_ok_members [OF ok x]
  have sN: "s < nslices_m w" and sx: "slice_m (?m x) = s" and x0: "x \<noteq> 0" using mem by simp_all
  have dl: "dlist ?m 0 (slice_head_m w s) (sl s)" and dist: "distinct (sl s)"
    using ok sN by (simp_all add: lists_ok_def)
  from x obtain ys zs where spl: "sl s = ys @ x # zs" by (auto dest: split_list)
  have rm: "remove1 x (sl s) = ys @ zs"
    using dist by (simp add: spl remove1_append)
  have z: "0 \<notin> set (sl s)" by (rule dlist_nonzero [OF dl])
  note sp = dlist_split [OF dl [unfolded spl]]
  define n where "n = next_m (?m x)"
  define q where "q = prev_m (?m x)"
  define m1 where "m1 = (if n \<noteq> 0 then set_prev ?m n q else ?m)"
  have n: "n = (if zs = [] then 0 else hd zs)" using sp(2) by (simp add: n_def)
  have q: "q = (if ys = [] then 0 else last ys)" using sp(1) by (simp add: q_def)
  have nx: "n \<noteq> 0 \<longrightarrow> n \<noteq> x \<and> n \<in> set (sl s)" using n dist spl by (cases zs) auto
  have qx: "q \<noteq> 0 \<longrightarrow> q \<in> set (sl s)" using q spl by (cases ys rule: rev_cases) auto
  have q0: "q = 0 \<longleftrightarrow> ys = []"
    using q z spl by (cases ys rule: rev_cases) auto
  have pm1: "prev_m (m1 x) = q" "next_m (m1 x) = n" "slice_m (m1 x) = s"
    using nx by (auto simp: m1_def q_def n_def sx)
  define m2 where "m2 = set_next m1 q n"
  have U: "dlist m2 0 (if ys = [] then n else slice_head_m w s) (ys @ zs)"
    unfolding m2_def m1_def n_def q_def
    by (rule dlist_unlink [OF dl [unfolded spl] dist [unfolded spl]]) (use z spl in simp)
  have U1: "ys = [] \<Longrightarrow> dlist m1 0 n zs"
  proof -
    assume e: "ys = []"
    have "dlist m2 0 n zs = dlist m1 0 n zs"
      by (rule dlist_frame) (use z spl q0 e in \<open>auto simp: m2_def\<close>)
    then show ?thesis using U e by simp
  qed
  define w' where "w' = unlink_timer_m w x"
  have raw: "prev_m ((if next_m (?m x) \<noteq> 0
                      then set_prev ?m (next_m (?m x)) (prev_m (?m x)) else ?m) x) = prev_m (?m x)"
            "next_m ((if next_m (?m x) \<noteq> 0
                      then set_prev ?m (next_m (?m x)) (prev_m (?m x)) else ?m) x) = next_m (?m x)"
            "slice_m ((if next_m (?m x) \<noteq> 0
                      then set_prev ?m (next_m (?m x)) (prev_m (?m x)) else ?m) x) = slice_m (?m x)"
    using nx by (simp_all add: set_prev_def n_def)
  have key: "w' = (if q = 0
                   then w\<lparr>slice_head_m := (slice_head_m w)(s := n), twentries := m1,
                          num_entries_m := num_entries_m w - 1\<rparr>
                   else w\<lparr>twentries := m2, num_entries_m := num_entries_m w - 1\<rparr>)"
    unfolding w'_def unlink_timer_m_def Let_def raw m2_def m1_def n_def q_def sx
    using x0 by simp
  have tw: "twentries w' = (if q = 0 then m1 else m2)"
    and hd: "slice_head_m w' = (if q = 0 then (slice_head_m w)(s := n) else slice_head_m w)"
    and num: "num_entries_m w' = num_entries_m w - 1"
    and N: "nslices_m w' = nslices_m w"
    by (simp_all add: key)
  have other: "next_m (twentries w' y) = next_m (?m y) \<and> prev_m (twentries w' y) = prev_m (?m y)"
    if "y \<noteq> 0" "y \<notin> set (sl s)" for y
    using that nx qx by (auto simp: tw m2_def m1_def)
  have slc: "slice_m (twentries w' y) = slice_m (?m y)" for y
    by (simp add: w'_def)
  have A: "dlist (twentries w') 0 (slice_head_m w' s) (ys @ zs)"
    using U U1 q0 by (auto simp: tw hd)
  have B: "dlist (twentries w') 0 (slice_head_m w' j) (sl j)" if j: "j < nslices_m w" "j \<noteq> s" for j
  proof -
    have dj: "dlist ?m 0 (slice_head_m w j) (sl j)" using ok j by (simp add: lists_ok_def)
    have "\<forall>y \<in> set (sl j). y \<noteq> 0 \<and> y \<notin> set (sl s)"
      using lists_ok_members [OF ok] j(2) by blast
    then have "dlist (twentries w') 0 (slice_head_m w j) (sl j) = dlist ?m 0 (slice_head_m w j) (sl j)"
      by (intro dlist_frame) (use other in blast)
    then show ?thesis using dj j(2) by (simp add: hd)
  qed
  have t: "total_linked w (sl(s := ys @ zs)) + length (sl s) = total_linked w sl + length (ys @ zs)"
    by (rule total_linked_upd [OF sN])
  have "total_linked w sl = Suc (total_linked w (sl(s := ys @ zs)))"
    using t by (simp add: spl)
  then have C: "num_entries_m w' = of_nat (total_linked w' (sl(s := ys @ zs)))"
    using ok by (simp add: num lists_ok_def total_linked_ring [OF N])
  have D: "\<forall>y \<in> set (ys @ zs). slice_m (twentries w' y) = s"
    using ok sN spl by (auto simp: slc lists_ok_def)
  have E: "distinct (ys @ zs)" using dist spl by auto
  have F: "dlist (twentries w') 0 (slice_head_m w' i) ((sl(s := ys @ zs)) i) \<and>
           distinct ((sl(s := ys @ zs)) i) \<and>
           (\<forall>y \<in> set ((sl(s := ys @ zs)) i). slice_m (twentries w' y) = i)"
    if i: "i < nslices_m w" for i
  proof (cases "i = s")
    case True
    then show ?thesis using A D E by simp
  next
    case False
    then show ?thesis using B [OF i False] ok i by (simp add: lists_ok_def slc)
  qed
  have G: "(sl(s := ys @ zs)) i = []" if "\<not> i < nslices_m w" for i
    using that sN ok by (auto simp: lists_ok_def)
  show ?thesis
    unfolding w'_def [symmetric] rm lists_ok_def N
  proof (intro conjI)
    show "\<forall>i. i < nslices_m w \<longrightarrow>
           dlist (twentries w') 0 (slice_head_m w' i) ((sl(s := ys @ zs)) i) \<and>
           distinct ((sl(s := ys @ zs)) i) \<and>
           (\<forall>y \<in> set ((sl(s := ys @ zs)) i). slice_m (twentries w' y) = i)"
      using F by (intro allI impI)
    show "\<forall>i. \<not> i < nslices_m w \<longrightarrow> (sl(s := ys @ zs)) i = []"
      using G by (intro allI impI)
    show "num_entries_m w' = word_of_nat (total_linked w' (sl(s := ys @ zs)))" by (rule C)
  qed
qed

lemma lists_ok_frame:
  assumes ok: "lists_ok w sl"
    and N: "nslices_m w' = nslices_m w" and h: "slice_head_m w' = slice_head_m w"
    and n: "num_entries_m w' = num_entries_m w"
    and f: "\<And>y i. y \<in> set (sl i) \<Longrightarrow>
              next_m (twentries w' y) = next_m (twentries w y) \<and>
              prev_m (twentries w' y) = prev_m (twentries w y) \<and>
              slice_m (twentries w' y) = slice_m (twentries w y)"
  shows "lists_ok w' sl"
proof -
  have d: "dlist (twentries w') 0 p (sl i) = dlist (twentries w) 0 p (sl i)" for p i
    by (rule dlist_frame) (use f in blast)
  have s: "(\<forall>x \<in> set (sl i). slice_m (twentries w' x) = i) =
           (\<forall>x \<in> set (sl i). slice_m (twentries w x) = i)" for i
    using f by auto
  show ?thesis
    using ok unfolding lists_ok_def N h n d s total_linked_ring [OF N] .
qed

lemma linked_members:
  assumes "linked w sl" and "x \<in> twentry_slab_m w"
  shows "x \<in> set (sl (slice_m (twentries w x)))" "slice_m (twentries w x) < nslices_m w" "x \<noteq> 0"
proof -
  have ok: "lists_ok w sl" using assms(1) by (simp add: linked_iff)
  from assms obtain i where i: "x \<in> set (sl i)" by (auto simp: linked_iff)
  note mem = lists_ok_members [OF ok i]
  show "x \<in> set (sl (slice_m (twentries w x)))" using i mem by simp
  show "slice_m (twentries w x) < nslices_m w" using mem by simp
  show "x \<noteq> 0" using mem by simp
qed

lemma linked_unlink:
  assumes l: "linked w sl" and x: "x \<in> twentry_slab_m w"
  defines "s \<equiv> slice_m (twentries w x)"
  shows "detached (unlink_timer_m w x) (sl(s := remove1 x (sl s))) x"
proof -
  have ok: "lists_ok w sl" and slab: "twentry_slab_m w = (\<Union>i. set (sl i))"
    using l by (simp_all add: linked_iff)
  note mem = linked_members [OF l x, folded s_def]
  have dist: "distinct (sl s)" using ok mem(2) by (simp add: lists_ok_def)
  have only: "x \<in> set (sl i) \<Longrightarrow> i = s" for i
    using lists_ok_members(2) [OF ok, of x i] by (simp add: s_def)
  have U: "(\<Union>i. set ((sl(s := remove1 x (sl s))) i)) = (\<Union>i. set (sl i)) - {x}"
  proof (intro set_eqI iffI)
    fix y assume "y \<in> (\<Union>i. set ((sl(s := remove1 x (sl s))) i))"
    then obtain i where i: "y \<in> set ((sl(s := remove1 x (sl s))) i)" by blast
    show "y \<in> (\<Union>i. set (sl i)) - {x}"
    proof (cases "i = s")
      case True
      then have "y \<in> set (sl s) \<and> y \<noteq> x" using i dist by simp
      then show ?thesis by blast
    next
      case False
      then have "y \<in> set (sl i) \<and> y \<noteq> x" using i only by auto
      then show ?thesis by blast
    qed
  next
    fix y assume "y \<in> (\<Union>i. set (sl i)) - {x}"
    then obtain i where i: "y \<in> set (sl i)" and yx: "y \<noteq> x" by blast
    have "y \<in> set ((sl(s := remove1 x (sl s))) i)" using i yx by auto
    then show "y \<in> (\<Union>i. set ((sl(s := remove1 x (sl s))) i))" by blast
  qed
  have "lists_ok (unlink_timer_m w x) (sl(s := remove1 x (sl s)))"
    by (rule lists_ok_unlink [OF ok mem(1)])
  moreover have "x \<in> (\<Union>i. set (sl i))" using mem(1) by blast
  ultimately show ?thesis
    unfolding detached_def U using mem(3) slab by auto
qed

lemma detached_init:
  assumes "detached w sl x"
  shows "detached (init_twentry_m w x i tm p c f s) sl x"
proof -
  have ok: "lists_ok w sl" and nx: "x \<notin> (\<Union>i. set (sl i))" using assms by (simp_all add: detached_def)
  have "lists_ok (init_twentry_m w x i tm p c f s) sl"
    by (rule lists_ok_frame [OF ok]) (use nx in \<open>auto simp: init_twentry_m_def\<close>)
  then show ?thesis using assms by (simp add: detached_def)
qed

lemma detached_free:
  assumes "detached w sl x"
  shows "linked (free_to_slab_m w x) sl"
proof -
  have ok: "lists_ok w sl" using assms by (simp add: detached_def)
  have "lists_ok (free_to_slab_m w x) sl"
    by (rule lists_ok_frame [OF ok]) (simp_all add: free_to_slab_m_def)
  then show ?thesis using assms by (auto simp: linked_iff detached_def free_to_slab_m_def)
qed

lemma detached_insert:
  assumes d: "detached w sl x" and p: "prev_m (twentries w x) = 0"
    and s: "slice_m (twentries w x) = s" and sN: "s < nslices_m w"
  shows "linked (insert_timer_m w x) (sl(s := x # sl s))"
proof -
  let ?m = "twentries w"
  have ok: "lists_ok w sl" and x0: "x \<noteq> 0" and nx: "x \<notin> (\<Union>i. set (sl i))"
    and slab: "twentry_slab_m w = insert x (\<Union>i. set (sl i))"
    using d by (simp_all add: detached_def)
  define h where "h = slice_head_m w s"
  have dl: "dlist ?m 0 h (sl s)" and dist: "distinct (sl s)"
    using ok sN by (simp_all add: lists_ok_def h_def)
  have xs: "x \<notin> set (sl s)" using nx by blast
  have z: "0 \<notin> set (sl s)" by (rule dlist_nonzero [OF dl])
  define m1 where "m1 = set_next ?m x h"
  define m2 where "m2 = (if h \<noteq> 0 then set_prev m1 h x else m1)"
  define m3 where "m3 = set_valid m2 x True"
  have P: "dlist m2 0 x (x # sl s)"
    unfolding m2_def m1_def by (rule dlist_push [OF dl dist xs x0 p])
  have "dlist m3 0 x (x # sl s) = dlist m2 0 x (x # sl s)"
    by (rule dlist_frame) (simp add: m3_def set_valid_def)
  then have P3: "dlist m3 0 x (x # sl s)" using P by simp
  have hin: "h \<noteq> 0 \<longrightarrow> h \<in> set (sl s)"
    using dlist_head [OF dl] by (cases "sl s") auto
  define w' where "w' = insert_timer_m w x"
  have tw: "twentries w' = m3" and hd: "slice_head_m w' = (slice_head_m w)(s := x)"
    and num: "num_entries_m w' = num_entries_m w + 1" and N: "nslices_m w' = nslices_m w"
    and sb: "twentry_slab_m w' = twentry_slab_m w"
    by (simp_all add: w'_def insert_timer_m_def Let_def m3_def m2_def m1_def h_def s)
  have other: "next_m (m3 y) = next_m (?m y) \<and> prev_m (m3 y) = prev_m (?m y)"
    if "y \<noteq> x" "y \<notin> set (sl s)" for y
    using that hin by (auto simp: m3_def m2_def m1_def set_valid_def set_prev_def set_next_def)
  have slc: "slice_m (m3 y) = slice_m (?m y)" for y
    by (simp add: m3_def m2_def m1_def)
  have B: "dlist m3 0 (slice_head_m w j) (sl j)" if j: "j < nslices_m w" "j \<noteq> s" for j
  proof -
    have dj: "dlist ?m 0 (slice_head_m w j) (sl j)" using ok j by (simp add: lists_ok_def)
    have "\<forall>y \<in> set (sl j). y \<noteq> x \<and> y \<notin> set (sl s)"
      using lists_ok_members(2) [OF ok] j(2) nx by blast
    then have "dlist m3 0 (slice_head_m w j) (sl j) = dlist ?m 0 (slice_head_m w j) (sl j)"
      by (intro dlist_frame) (use other in blast)
    then show ?thesis using dj by simp
  qed
  have t: "total_linked w (sl(s := x # sl s)) + length (sl s) = total_linked w sl + length (x # sl s)"
    by (rule total_linked_upd [OF sN])
  have "total_linked w (sl(s := x # sl s)) = Suc (total_linked w sl)"
    using t by simp
  then have C: "num_entries_m w' = of_nat (total_linked w' (sl(s := x # sl s)))"
    using ok by (simp add: num lists_ok_def total_linked_ring [OF N])
  have D: "\<forall>y \<in> set (sl i). slice_m (m3 y) = i" if "i < nslices_m w" for i
    using ok that by (simp add: slc lists_ok_def)
  have F: "dlist (twentries w') 0 (slice_head_m w' i) ((sl(s := x # sl s)) i) \<and>
           distinct ((sl(s := x # sl s)) i) \<and>
           (\<forall>y \<in> set ((sl(s := x # sl s)) i). slice_m (twentries w' y) = i)"
    if i: "i < nslices_m w" for i
  proof (cases "i = s")
    case True
    then show ?thesis using P3 D [OF sN] dist xs s by (simp add: tw hd slc)
  next
    case False
    then show ?thesis using B [OF i False] D [OF i] ok i by (simp add: lists_ok_def tw hd)
  qed
  have G: "(sl(s := x # sl s)) i = []" if "\<not> i < nslices_m w" for i
    using that sN ok by (auto simp: lists_ok_def)
  have U: "(\<Union>i. set ((sl(s := x # sl s)) i)) = insert x (\<Union>i. set (sl i))"
  proof (intro set_eqI iffI)
    fix y assume "y \<in> (\<Union>i. set ((sl(s := x # sl s)) i))"
    then obtain i where i: "y \<in> set ((sl(s := x # sl s)) i)" by blast
    then have "y = x \<or> y \<in> set (sl i)" by (cases "i = s") auto
    then show "y \<in> insert x (\<Union>i. set (sl i))" by blast
  next
    fix y assume "y \<in> insert x (\<Union>i. set (sl i))"
    then consider "y = x" | i where "y \<in> set (sl i)" by blast
    then show "y \<in> (\<Union>i. set ((sl(s := x # sl s)) i))"
    proof cases
      case 1
      then have "y \<in> set ((sl(s := x # sl s)) s)" by simp
      then show ?thesis by blast
    next
      case 2
      then have "y \<in> set ((sl(s := x # sl s)) i)" by auto
      then show ?thesis by blast
    qed
  qed
  have "lists_ok w' (sl(s := x # sl s))"
    unfolding lists_ok_def N
  proof (intro conjI)
    show "\<forall>i. i < nslices_m w \<longrightarrow>
           dlist (twentries w') 0 (slice_head_m w' i) ((sl(s := x # sl s)) i) \<and>
           distinct ((sl(s := x # sl s)) i) \<and>
           (\<forall>y \<in> set ((sl(s := x # sl s)) i). slice_m (twentries w' y) = i)"
      using F by (intro allI impI)
    show "\<forall>i. \<not> i < nslices_m w \<longrightarrow> (sl(s := x # sl s)) i = []"
      using G by (intro allI impI)
    show "num_entries_m w' = word_of_nat (total_linked w' (sl(s := x # sl s)))" by (rule C)
  qed
  then show ?thesis
    unfolding w'_def [symmetric] linked_iff U using slab sb by simp
qed

lemma same_links_lock:
  "TWHEEL_LOCK_SLICE w s = Inr w' \<Longrightarrow> same_links w w'"
  by (auto simp: TWHEEL_LOCK_SLICE_def same_links_def split: if_splits)

lemma same_links_unlock: "same_links w (TWHEEL_UNLOCK_SLICE w s)"
  by (simp add: TWHEEL_UNLOCK_SLICE_def same_links_def)

lemma same_links_set_valid:
  "same_links w (w\<lparr>twentries := set_valid (twentries w) x b\<rparr>)"
  by (simp add: same_links_def set_valid_def)

lemma same_links_trans: "same_links a b \<Longrightarrow> same_links b c \<Longrightarrow> same_links a c"
  by (simp add: same_links_def)

lemma detached_lock:
  "TWHEEL_LOCK_SLICE w s = Inr w' \<Longrightarrow> detached w sl x \<Longrightarrow> detached w' sl x"
  by (rule detached_same_links [OF same_links_lock])

lemma linked_lock:
  "TWHEEL_LOCK_SLICE w s = Inr w' \<Longrightarrow> linked w sl \<Longrightarrow> linked w' sl"
  by (rule linked_same_links [OF same_links_lock])

lemma linked_unlock: "linked w sl \<Longrightarrow> linked (TWHEEL_UNLOCK_SLICE w s) sl"
  by (rule linked_same_links [OF same_links_unlock])

lemma detached_unlock: "detached w sl x \<Longrightarrow> detached (TWHEEL_UNLOCK_SLICE w s) sl x"
  by (rule detached_same_links [OF same_links_unlock])

lemma linked_set_valid:
  "linked w sl \<Longrightarrow> linked (w\<lparr>twentries := set_valid (twentries w) x b\<rparr>) sl"
  by (rule linked_same_links [OF same_links_set_valid])

lemma detached_set_valid:
  "detached w sl x \<Longrightarrow> detached (w\<lparr>twentries := set_valid (twentries w) y b\<rparr>) sl x"
  by (rule detached_same_links [OF same_links_set_valid])

lemma init_insert_linked:
  assumes d: "detached w sl x" and s: "s < nslices_m w"
  shows "linked (insert_timer_m (init_twentry_m w x i tm p c f s) x) (sl(s := x # sl s))"
  by (rule detached_insert [OF detached_init [OF d]]) (simp_all add: s)

lemma remove_detached:
  assumes l: "linked w sl" and x: "x \<in> twentry_slab_m w" and v: "valid_m (twentries w x)"
  shows "\<exists>sl'. detached (remove_timer_m w x) sl' x"
proof -
  have "remove_timer_m w x =
        (unlink_timer_m w x)\<lparr>twentries := set_valid (twentries (unlink_timer_m w x)) x False\<rparr>"
    using v by (simp add: remove_timer_m_def Let_def)
  then show ?thesis
    using detached_set_valid [OF linked_unlink [OF l x]] by auto
qed

lemma delay_delete_m_inv:
  assumes ok: "wheel_ok w" and d: "detached w sl x" and r: "delay_delete_m w x = Inr w'"
  shows "wheel_inv w' \<and> twentry_slab_m w' = twentry_slab_m w"
proof -
  define s where "s = next_slice_m w TWHEEL_DELAY_DELETE (slice_m (twentries w x)) True"
  have sN: "s < nslices_m w"
    unfolding s_def by (rule next_slice_m_lt) (use ok in \<open>simp add: wheel_ok_def\<close>)
  from r obtain w1 where lk: "TWHEEL_LOCK_SLICE w s = Inr w1"
    and w': "w' = TWHEEL_UNLOCK_SLICE
               ((insert_timer_m (init_twentry_m w1 x (timer_id_m (twentries w1 x))
                     TWHEEL_DELAY_DELETE False 0 0 s) x)
                 \<lparr>twentries := set_valid (twentries (insert_timer_m (init_twentry_m w1 x
                     (timer_id_m (twentries w1 x)) TWHEEL_DELAY_DELETE False 0 0 s) x)) x False\<rparr>) s"
    by (auto simp: delay_delete_m_def Let_def s_def split: sum.splits)
  note rl = ring_lock [OF lk]
  have d1: "detached w1 sl x" by (rule detached_lock [OF lk d])
  have s1: "s < nslices_m w1" using sN rl by simp
  have "linked w' (sl(s := x # sl s))"
    unfolding w' by (intro linked_unlock linked_set_valid init_insert_linked [OF d1 s1])
  moreover have "wheel_ok w'"
    using ok wheel_ok_ring [of w' w] by (simp add: w' rl)
  moreover have "twentry_slab_m w' = twentry_slab_m w" by (simp add: w' rl)
  ultimately show ?thesis by (auto simp: wheel_inv_def)
qed

lemma upd_timer_m_inv:
  assumes inv: "wheel_inv w" and x: "x \<in> twentry_slab_m w" and v: "valid_m (twentries w x)"
    and r: "upd_timer_m w x tm per = Inr w'"
  shows "wheel_inv w' \<and> twentry_slab_m w' = twentry_slab_m w"
proof -
  from inv obtain sl where ok: "wheel_ok w" and l: "linked w sl" by (auto simp: wheel_inv_def)
  define w0 where "w0 = remove_timer_m w x"
  from remove_detached [OF l x v] obtain sl' where d: "detached w0 sl' x" by (auto simp: w0_def)
  define s where "s = next_slice_m w0 tm (slice_m (twentries w0 x)) True"
  have N0: "nslices_m w0 = nslices_m w" by (simp add: w0_def)
  have sN: "s < nslices_m w0"
    unfolding s_def by (rule next_slice_m_lt) (use ok N0 in \<open>simp add: wheel_ok_def\<close>)
  from r obtain w1 where lk: "TWHEEL_LOCK_SLICE w0 s = Inr w1"
    and w': "w' = TWHEEL_UNLOCK_SLICE
               (insert_timer_m (init_twentry_m w1 x (timer_id_m (twentries w1 x)) tm per
                     (ctxt_m (twentries w1 x)) (cb_m (twentries w1 x)) s) x) s"
    by (auto simp: upd_timer_m_def Let_def s_def w0_def split: sum.splits)
  note rl = ring_lock [OF lk]
  have d1: "detached w1 sl' x" by (rule detached_lock [OF lk d])
  have s1: "s < nslices_m w1" using sN rl by simp
  have "linked w' (sl'(s := x # sl' s))"
    unfolding w' by (intro linked_unlock init_insert_linked [OF d1 s1])
  moreover have "wheel_ok w'"
    using ok wheel_ok_ring [of w' w] by (simp add: w' rl w0_def)
  moreover have "twentry_slab_m w' = twentry_slab_m w" by (simp add: w' rl w0_def)
  ultimately show ?thesis by (auto simp: wheel_inv_def)
qed

lemma add_timer_inv:
  assumes inv: "wheel_inv w" and a: "a = 0 \<or> a \<notin> twentry_slab_m w"
    and r: "add_timer w a timer_id timeout ctxt cb periodic initial_delay = Inr (h, w')"
  shows "wheel_inv w' \<and> twentry_slab_m w \<subseteq> twentry_slab_m w'"
proof (cases "a = 0")
  case True
  then show ?thesis using r inv by (simp add: add_timer_def Let_def)
next
  case False
  from inv obtain sl where ok: "wheel_ok w" and l: "linked w sl" by (auto simp: wheel_inv_def)
  define s where "s = next_slice_m w (initial_delay + timeout) 0 False"
  have sN: "s < nslices_m w"
    unfolding s_def by (rule next_slice_m_lt) (use ok in \<open>simp add: wheel_ok_def\<close>)
  define w0 where "w0 = w\<lparr>twentry_slab_m := insert a (twentry_slab_m w)\<rparr>"
  have "lists_ok w0 sl"
    by (rule lists_ok_frame [of w]) (use l in \<open>simp_all add: linked_iff w0_def\<close>)
  then have d0: "detached w0 sl a"
    using False a l by (simp add: detached_def linked_iff w0_def)
  define w1 where "w1 = init_twentry_m w0 a timer_id timeout periodic ctxt cb s"
  have d1: "detached w1 sl a" unfolding w1_def by (rule detached_init [OF d0])
  have sl1: "slice_m (twentries w1 a) = s" and p1: "prev_m (twentries w1 a) = 0"
    by (simp_all add: w1_def)
  from r False obtain w2 where lk: "TWHEEL_LOCK_SLICE w1 s = Inr w2"
    and w': "w' = TWHEEL_UNLOCK_SLICE (insert_timer_m w2 a) (slice_m (twentries (insert_timer_m w2 a) a))"
    by (auto simp: add_timer_def Let_def s_def [symmetric] w0_def [symmetric] w1_def [symmetric] sl1
        split: sum.splits)
  note rl = ring_lock [OF lk]
  have d2: "detached w2 sl a" by (rule detached_lock [OF lk d1])
  have "linked (insert_timer_m w2 a) (sl(s := a # sl s))"
    by (rule detached_insert [OF d2]) (simp_all add: rl sl1 p1 w1_def w0_def sN)
  then have "linked w' (sl(s := a # sl s))"
    unfolding w' by (rule linked_unlock)
  moreover have "wheel_ok w'"
    using ok wheel_ok_ring [of w' w] by (simp add: w' rl w1_def w0_def)
  moreover have "twentry_slab_m w' = insert a (twentry_slab_m w)" by (simp add: w' rl w1_def w0_def)
  ultimately show ?thesis by (auto simp: wheel_inv_def)
qed

lemma del_timer_inv:
  assumes inv: "wheel_inv w" and t: "timer = 0 \<or> timer \<in> twentry_slab_m w"
    and r: "del_timer w timer = Inr (c, w')"
  shows "wheel_inv w' \<and> twentry_slab_m w' = twentry_slab_m w"
proof (cases "timer = 0")
  case True
  then show ?thesis using r inv by (simp add: del_timer_def)
next
  case False
  then have x: "timer \<in> twentry_slab_m w" using t by simp
  from inv obtain sl where ok: "wheel_ok w" and l: "linked w sl" by (auto simp: wheel_inv_def)
  define s where "s = slice_m (twentries w timer)"
  from r False obtain w1 where lk: "TWHEEL_LOCK_SLICE w s = Inr w1"
    by (auto simp: del_timer_def Let_def s_def split: sum.splits)
  note rl = ring_lock [OF lk]
  have l1: "linked w1 sl" by (rule linked_lock [OF lk l])
  show ?thesis
  proof (cases "valid_m (twentries w1 timer)")
    case nv: False
    then have w': "w' = TWHEEL_UNLOCK_SLICE w1 s"
      using r False lk by (simp add: del_timer_def Let_def s_def [symmetric])
    have "linked w' sl" unfolding w' by (rule linked_unlock [OF l1])
    moreover have "wheel_ok w'" using ok wheel_ok_ring [of w' w] by (simp add: w' rl)
    moreover have "twentry_slab_m w' = twentry_slab_m w" by (simp add: w' rl)
    ultimately show ?thesis by (auto simp: wheel_inv_def)
  next
    case v: True
    define w3 where "w3 = TWHEEL_UNLOCK_SLICE (remove_timer_m w1 timer) s"
    have dd: "delay_delete_m w3 timer = Inr w'"
      using r False lk v
      by (auto simp: del_timer_def Let_def s_def [symmetric] w3_def [symmetric] split: sum.splits)
    have x1: "timer \<in> twentry_slab_m w1" using x rl by simp
    from remove_detached [OF l1 x1 v] obtain sl' where "detached (remove_timer_m w1 timer) sl' timer"
      by auto
    then have d3: "detached w3 sl' timer" unfolding w3_def by (rule detached_unlock)
    have ok3: "wheel_ok w3" using ok wheel_ok_ring [of w3 w] by (simp add: w3_def rl)
    have "twentry_slab_m w3 = twentry_slab_m w" by (simp add: w3_def rl)
    then show ?thesis using delay_delete_m_inv [OF ok3 d3 dd] by simp
  qed
qed

lemma upd_timer_inv:
  assumes inv: "wheel_inv w" and t: "timer = 0 \<or> timer \<in> twentry_slab_m w"
    and r: "upd_timer w timer timeout periodic ctxt = Inr (h, w')"
  shows "wheel_inv w' \<and> twentry_slab_m w' = twentry_slab_m w"
proof (cases "timer = 0")
  case True
  then show ?thesis using r inv by (simp add: upd_timer_def)
next
  case False
  then have x: "timer \<in> twentry_slab_m w" using t by simp
  from inv obtain sl where ok: "wheel_ok w" and l: "linked w sl" by (auto simp: wheel_inv_def)
  define es where "es = slice_m (twentries w timer)"
  from r False obtain w1 where lk: "TWHEEL_LOCK_SLICE w es = Inr w1"
    by (auto simp: upd_timer_def Let_def es_def split: sum.splits)
  note rl = ring_lock [OF lk]
  have l1: "linked w1 sl" by (rule linked_lock [OF lk l])
  show ?thesis
  proof (cases "valid_m (twentries w1 timer)")
    case nv: False
    then have w': "w' = TWHEEL_UNLOCK_SLICE w1 es"
      using r False lk by (simp add: upd_timer_def Let_def es_def [symmetric])
    have "linked w' sl" unfolding w' by (rule linked_unlock [OF l1])
    moreover have "wheel_ok w'" using ok wheel_ok_ring [of w' w] by (simp add: w' rl)
    moreover have "twentry_slab_m w' = twentry_slab_m w" by (simp add: w' rl)
    ultimately show ?thesis by (auto simp: wheel_inv_def)
  next
    case v: True
    define w2 where "w2 = remove_timer_m w1 timer"
    define s where "s = next_slice_m w2 timeout es True"
    have N2: "nslices_m w2 = nslices_m w" by (simp add: w2_def rl)
    have sN: "s < nslices_m w2"
      unfolding s_def by (rule next_slice_m_lt) (use ok N2 in \<open>simp add: wheel_ok_def\<close>)
    from r False lk v obtain w3 where lk3: "TWHEEL_LOCK_SLICE w2 s = Inr w3"
      and w': "w' = TWHEEL_UNLOCK_SLICE (TWHEEL_UNLOCK_SLICE
                 (insert_timer_m (init_twentry_m w3 timer (timer_id_m (twentries w3 timer)) timeout
                     periodic ctxt (cb_m (twentries w3 timer)) s) timer) s) es"
      by (auto simp: upd_timer_def Let_def es_def [symmetric] w2_def [symmetric] s_def [symmetric]
          split: sum.splits)
    note rl3 = ring_lock [OF lk3]
    have x1: "timer \<in> twentry_slab_m w1" using x rl by simp
    from remove_detached [OF l1 x1 v] obtain sl' where d2: "detached w2 sl' timer"
      by (auto simp: w2_def)
    have d3: "detached w3 sl' timer" by (rule detached_lock [OF lk3 d2])
    have s3: "s < nslices_m w3" using sN rl3 by simp
    have "linked w' (sl'(s := timer # sl' s))"
      unfolding w' by (intro linked_unlock init_insert_linked [OF d3 s3])
    moreover have "wheel_ok w'"
      using ok wheel_ok_ring [of w' w] by (simp add: w' rl3 w2_def rl)
    moreover have "twentry_slab_m w' = twentry_slab_m w" by (simp add: w' rl3 w2_def rl)
    ultimately show ?thesis by (auto simp: wheel_inv_def)
  qed
qed

lemma linked_prev:
  assumes l: "linked w sl" and x: "x \<in> twentry_slab_m w"
  shows "prev_m (twentries w x) = 0 \<or>
         (prev_m (twentries w x) \<in> twentry_slab_m w \<and> prev_m (twentries w x) \<noteq> x)"
proof -
  define s where "s = slice_m (twentries w x)"
  have ok: "lists_ok w sl" and slab: "twentry_slab_m w = (\<Union>i. set (sl i))"
    using l by (simp_all add: linked_iff)
  note mem = linked_members [OF l x, folded s_def]
  have dl: "dlist (twentries w) 0 (slice_head_m w s) (sl s)" and dist: "distinct (sl s)"
    using ok mem(2) by (simp_all add: lists_ok_def)
  from mem(1) obtain ys zs where spl: "sl s = ys @ x # zs" by (auto dest: split_list)
  have p: "prev_m (twentries w x) = (if ys = [] then 0 else last ys)"
    by (rule dlist_split(1) [OF dl [unfolded spl]])
  show ?thesis
  proof (cases "ys = []")
    case True
    then show ?thesis using p by simp
  next
    case False
    then have "last ys \<in> set ys" by simp
    then have "last ys \<in> set (sl s) \<and> last ys \<noteq> x" using spl dist by auto
    then show ?thesis using p False slab by auto
  qed
qed

lemma linked_next:
  assumes l: "linked w sl" and x: "x \<in> twentry_slab_m w"
  shows "next_m (twentries w x) = 0 \<or> next_m (twentries w x) \<in> twentry_slab_m w"
proof -
  define s where "s = slice_m (twentries w x)"
  have ok: "lists_ok w sl" and slab: "twentry_slab_m w = (\<Union>i. set (sl i))"
    using l by (simp_all add: linked_iff)
  note mem = linked_members [OF l x, folded s_def]
  have dl: "dlist (twentries w) 0 (slice_head_m w s) (sl s)"
    using ok mem(2) by (simp_all add: lists_ok_def)
  from mem(1) obtain ys zs where spl: "sl s = ys @ x # zs" by (auto dest: split_list)
  have n: "next_m (twentries w x) = (if zs = [] then 0 else hd zs)"
    by (rule dlist_split(2) [OF dl [unfolded spl]])
  show ?thesis
  proof (cases "zs = []")
    case True
    then show ?thesis using n by simp
  next
    case False
    then have "hd zs \<in> set zs" by simp
    then have "hd zs \<in> set (sl s)" using spl by auto
    then show ?thesis using n False slab by auto
  qed
qed

lemma linked_head:
  assumes l: "linked w sl" and i: "i < nslices_m w"
  shows "slice_head_m w i = 0 \<or> slice_head_m w i \<in> twentry_slab_m w"
proof -
  have dl: "dlist (twentries w) 0 (slice_head_m w i) (sl i)"
    using l i by (simp add: linked_def)
  show ?thesis
  proof (cases "sl i = []")
    case True
    then show ?thesis using dlist_head [OF dl] by simp
  next
    case False
    then have "hd (sl i) \<in> set (sl i)" by simp
    then have "hd (sl i) \<in> (\<Union>i. set (sl i))" by blast
    then have "hd (sl i) \<in> twentry_slab_m w" using l by (simp add: linked_def)
    then show ?thesis using dlist_head [OF dl] False by simp
  qed
qed

lemma last_timer_from_slab:
  assumes l: "linked w sl" and r: "last_timer_from (twentries w) p = Some t"
    and p: "p = 0 \<or> p \<in> twentry_slab_m w"
  shows "t = 0 \<or> t \<in> twentry_slab_m w"
proof -
  have "twentries w = twentries w \<longrightarrow> p = 0 \<or> p \<in> twentry_slab_m w \<longrightarrow>
        t = 0 \<or> t \<in> twentry_slab_m w"
  proof (rule last_timer_from.raw_induct
      [where P = "\<lambda>m' p' t'. m' = twentries w \<longrightarrow> p' = 0 \<or> p' \<in> twentry_slab_m w \<longrightarrow>
                    t' = 0 \<or> t' \<in> twentry_slab_m w", OF _ r])
    fix f :: "(ptr \<Rightarrow> twentry) \<Rightarrow> ptr \<Rightarrow> ptr option" and m' p' t'
    assume IH: "\<And>m'' p'' y. f m'' p'' = Some y \<Longrightarrow>
                  m'' = twentries w \<longrightarrow> p'' = 0 \<or> p'' \<in> twentry_slab_m w \<longrightarrow>
                  y = 0 \<or> y \<in> twentry_slab_m w"
      and eq: "(if p' \<noteq> 0 \<and> next_m (m' p') \<noteq> 0 then f m' (next_m (m' p')) else Some p') = Some t'"
    show "m' = twentries w \<longrightarrow> p' = 0 \<or> p' \<in> twentry_slab_m w \<longrightarrow>
          t' = 0 \<or> t' \<in> twentry_slab_m w"
    proof (intro impI)
      assume m: "m' = twentries w" and p: "p' = 0 \<or> p' \<in> twentry_slab_m w"
      show "t' = 0 \<or> t' \<in> twentry_slab_m w"
      proof (cases "p' \<noteq> 0 \<and> next_m (m' p') \<noteq> 0")
        case True
        then have f: "f m' (next_m (m' p')) = Some t'" using eq by simp
        have "next_m (m' p') \<in> twentry_slab_m w" using linked_next [OF l, of p'] True p m by auto
        then show ?thesis using IH [OF f] m by simp
      next
        case False
        then have "t' = p'" using eq by auto
        then show ?thesis using p by simp
      qed
    qed
  qed
  then show ?thesis using p by simp
qed

lemma tick_entry_inv:
  assumes cb: "callbacks_ok cbs" and inv: "wheel_inv w" and t: "t \<in> twentry_slab_m w"
    and r: "tick_entry cbs w t = Inr (p, w')"
  shows "wheel_inv w' \<and> (p = 0 \<or> p \<in> twentry_slab_m w')"
proof -
  from inv obtain sl where ok: "wheel_ok w" and l: "linked w sl" by (auto simp: wheel_inv_def)
  note pr = linked_prev [OF l t]
  consider (corpse) "\<not> valid_m (twentries w t)"
    | (spin) "valid_m (twentries w t)" "nspins_m (twentries w t) \<noteq> 0"
    | (fire) "valid_m (twentries w t)" "nspins_m (twentries w t) = 0" by blast
  then show ?thesis
  proof cases
    case corpse
    then have p: "p = prev_m (twentries w t)"
      and w': "w' = free_to_slab_m (unlink_timer_m w t) t"
      using r by (simp_all add: tick_entry_def Let_def)
    have "linked w' (sl(slice_m (twentries w t) := remove1 t (sl (slice_m (twentries w t)))))"
      unfolding w' by (rule detached_free [OF linked_unlink [OF l t]])
    moreover have "wheel_ok w'"
      using ok wheel_ok_ring [of w' w] by (simp add: w' free_to_slab_m_def)
    moreover have "twentry_slab_m w' = twentry_slab_m w - {t}"
      by (simp add: w' free_to_slab_m_def)
    ultimately show ?thesis using pr p by (auto simp: wheel_inv_def)
  next
    case spin
    define w1 where "w1 = w\<lparr>twentries := (twentries w)(t :=
                     (twentries w t)\<lparr>nspins_m := nspins_m (twentries w t) - 1\<rparr>)\<rparr>"
    have p: "p = prev_m (twentries w t)" and w': "w' = w1"
      using r spin by (simp_all add: tick_entry_def Let_def w1_def)
    have sl: "same_links w w1" by (simp add: same_links_def w1_def)
    have "linked w' sl" unfolding w' by (rule linked_same_links [OF sl l])
    moreover have "wheel_ok w'" using ok wheel_ok_ring [of w' w] by (simp add: w' w1_def)
    moreover have "twentry_slab_m w' = twentry_slab_m w" by (simp add: w' w1_def)
    ultimately show ?thesis using pr p by (auto simp: wheel_inv_def)
  next
    case fire
    define pe where "pe = prev_m (twentries w t)"
    from r fire obtain w1 where
      c: "cbs (cb_m (twentries w t)) t (timer_id_m (twentries w t)) (ctxt_m (twentries w t)) w = Inr w1"
      and rest: "(if periodic_m (twentries w1 t) then
                      (if valid_m (twentries w1 t) then
                         (case upd_timer_m w1 t (ucast (timeout_m (twentries w1 t))) True of
                            Inl e \<Rightarrow> Inl e
                          | Inr w2 \<Rightarrow> Inr (pe, w2))
                       else Inr (pe, w1))
                    else
                      (if valid_m (twentries w1 t) then
                         (case delay_delete_m (remove_timer_m w1 t) t of
                            Inl e \<Rightarrow> Inl e
                          | Inr w3 \<Rightarrow> Inr (pe, w3))
                       else Inr (pe, w1))) = Inr (p, w')"
      unfolding tick_entry_def Let_def pe_def
      by (simp split: if_splits sum.splits)
    have inv1: "wheel_inv w1" and sub: "twentry_slab_m w \<subseteq> twentry_slab_m w1"
      using cb inv c unfolding callbacks_ok_def by blast+
    have t1: "t \<in> twentry_slab_m w1" using t sub by blast
    have pe1: "pe = 0 \<or> pe \<in> twentry_slab_m w1" using pr sub by (auto simp: pe_def)
    from inv1 obtain sl1 where ok1: "wheel_ok w1" and l1: "linked w1 sl1"
      by (auto simp: wheel_inv_def)
    show ?thesis
    proof (cases "valid_m (twentries w1 t)")
      case False
      then have "p = pe" "w' = w1" using rest by (simp_all split: if_splits)
      then show ?thesis using inv1 pe1 by simp
    next
      case v: True
      show ?thesis
      proof (cases "periodic_m (twentries w1 t)")
        case True
        then obtain w2 where u: "upd_timer_m w1 t (ucast (timeout_m (twentries w1 t))) True = Inr w2"
          and e: "p = pe" "w' = w2"
          using rest v by (auto split: sum.splits)
        show ?thesis using upd_timer_m_inv [OF inv1 t1 v u] pe1 e by simp
      next
        case False
        then obtain w3 where u: "delay_delete_m (remove_timer_m w1 t) t = Inr w3"
          and e: "p = pe" "w' = w3"
          using rest v by (auto split: sum.splits)
        from remove_detached [OF l1 t1 v] obtain sl' where d: "detached (remove_timer_m w1 t) sl' t"
          by auto
        have okr: "wheel_ok (remove_timer_m w1 t)"
          using ok1 wheel_ok_ring [of "remove_timer_m w1 t" w1] by simp
        show ?thesis using delay_delete_m_inv [OF okr d u] pe1 e by simp
      qed
    qed
  qed
qed

lemma tick_walk_inv:
  assumes cb: "callbacks_ok cbs" and r: "tick_walk cbs w t = Some (Inr w')"
    and inv: "wheel_inv w" and t: "t = 0 \<or> t \<in> twentry_slab_m w"
  shows "wheel_inv w'"
proof -
  have "cbs = cbs \<longrightarrow> wheel_inv w \<longrightarrow> t = 0 \<or> t \<in> twentry_slab_m w \<longrightarrow>
        (\<forall>v. (Inr w' :: error + twheel) = Inr v \<longrightarrow> wheel_inv v)"
  proof (rule tick_walk.raw_induct
      [where P = "\<lambda>c u p y. c = cbs \<longrightarrow> wheel_inv u \<longrightarrow> p = 0 \<or> p \<in> twentry_slab_m u \<longrightarrow>
                    (\<forall>v. y = Inr v \<longrightarrow> wheel_inv v)", OF _ r])
    fix f :: "callbacks \<Rightarrow> twheel \<Rightarrow> ptr \<Rightarrow> (error + twheel) option" and c u p y
    assume IH: "\<And>c' u' p' y'. f c' u' p' = Some y' \<Longrightarrow>
                  c' = cbs \<longrightarrow> wheel_inv u' \<longrightarrow> p' = 0 \<or> p' \<in> twentry_slab_m u' \<longrightarrow>
                  (\<forall>v. y' = Inr v \<longrightarrow> wheel_inv v)"
      and eq: "(if p = 0 then Some (Inr u)
                else case tick_entry c u p of
                       Inl e \<Rightarrow> Some (Inl e)
                     | Inr (prev_entry, u') \<Rightarrow> f c u' prev_entry) = Some y"
    show "c = cbs \<longrightarrow> wheel_inv u \<longrightarrow> p = 0 \<or> p \<in> twentry_slab_m u \<longrightarrow>
          (\<forall>v. y = Inr v \<longrightarrow> wheel_inv v)"
    proof (intro impI allI)
      fix v
      assume c: "c = cbs" and iu: "wheel_inv u" and p: "p = 0 \<or> p \<in> twentry_slab_m u"
        and y: "y = Inr v"
      show "wheel_inv v"
      proof (cases "p = 0")
        case True
        then show ?thesis using eq y iu by simp
      next
        case False
        then have pin: "p \<in> twentry_slab_m u" using p by simp
        show ?thesis
        proof (cases "tick_entry cbs u p")
          case (Inl e)
          then show ?thesis using eq y False c by simp
        next
          case (Inr pw)
          obtain q u' where pw: "pw = (q, u')" by (cases pw)
          have te: "tick_entry cbs u p = Inr (q, u')" using Inr pw by simp
          have f: "f cbs u' q = Some y" using eq False c te by simp
          note step = tick_entry_inv [OF cb iu pin te]
          show ?thesis using IH [OF f] step y by simp
        qed
      qed
    qed
  qed
  then show ?thesis using inv t by simp
qed

lemma tick_slices_inv:
  assumes cb: "callbacks_ok cbs"
  shows "wheel_inv w \<Longrightarrow> tick_slices cbs n w = Some (Inr w') \<Longrightarrow> wheel_inv w'"
proof (induction n arbitrary: w)
  case 0
  then show ?case by simp
next
  case (Suc n)
  from Suc.prems(1) obtain sl where ok: "wheel_ok w" and l: "linked w sl"
    by (auto simp: wheel_inv_def)
  from Suc.prems(2) obtain w1 where lk: "TWHEEL_LOCK_SLICE w (curr_slice_m w) = Inr w1"
    by (auto split: sum.splits)
  note rl = ring_lock [OF lk]
  have l1: "linked w1 sl" by (rule linked_lock [OF lk l])
  have ok1: "wheel_ok w1" using ok wheel_ok_ring [of w1 w] rl by simp
  have inv1: "wheel_inv w1" using ok1 l1 by (auto simp: wheel_inv_def)
  from Suc.prems(2) lk obtain t where lt: "last_timer_in_slice w1 (curr_slice_m w1) = Some t"
    by (auto split: option.splits)
  from Suc.prems(2) lk lt obtain w2 where tw: "tick_walk cbs w1 t = Some (Inr w2)"
    by (auto split: option.splits sum.splits)
  define w4 where "w4 = (TWHEEL_UNLOCK_SLICE w2 (curr_slice_m w2))
      \<lparr>curr_slice_m := (curr_slice_m (TWHEEL_UNLOCK_SLICE w2 (curr_slice_m w2)) + 1) mod
                         nslices_m (TWHEEL_UNLOCK_SLICE w2 (curr_slice_m w2))\<rparr>"
  have rec: "tick_slices cbs n w4 = Some (Inr w')"
    using Suc.prems(2) lk lt tw by (simp add: Let_def w4_def)
  have c1: "curr_slice_m w1 < nslices_m w1" using ok1 by (simp add: wheel_ok_def)
  have hd: "slice_head_m w1 (curr_slice_m w1) = 0 \<or> slice_head_m w1 (curr_slice_m w1) \<in> twentry_slab_m w1"
    by (rule linked_head [OF l1 c1])
  have t: "t = 0 \<or> t \<in> twentry_slab_m w1"
    by (rule last_timer_from_slab [OF l1 lt [unfolded last_timer_in_slice_def] hd])
  have inv2: "wheel_inv w2" by (rule tick_walk_inv [OF cb tw inv1 t])
  then obtain sl2 where ok2: "wheel_ok w2" and l2: "linked w2 sl2" by (auto simp: wheel_inv_def)
  have "same_links w2 w4" by (simp add: same_links_def w4_def)
  then have l4: "linked w4 sl2" using l2 by (rule linked_same_links)
  have N2: "nslices_m w2 \<noteq> 0" using ok2 by (simp add: wheel_ok_def)
  have "(curr_slice_m w2 + 1) mod nslices_m w2 < nslices_m w2"
    using N2 by (simp add: word_mod_less_divisor word_neq_0_conv)
  then have ok4: "wheel_ok w4" using ok2 by (simp add: wheel_ok_def w4_def)
  have "wheel_inv w4" using ok4 l4 by (auto simp: wheel_inv_def)
  then show ?case using rec by (rule Suc.IH)
qed

lemma tick_inv:
  assumes "callbacks_ok cbs" and "wheel_inv w" and "tick cbs w msecs_elapsed = Some (Inr w')"
  shows "wheel_inv w'"
proof (cases "ucast msecs_elapsed < slice_intvl_m w")
  case True
  then show ?thesis using assms by (simp add: tick_def)
next
  case False
  then show ?thesis using assms tick_slices_inv [OF assms(1,2)] by (simp add: tick_def)
qed

lemma wheel_step_inv:
  assumes cb: "callbacks_ok cbs" and inv: "wheel_inv w" and st: "wheel_step cbs w w'"
  shows "wheel_inv w'"
  using st
proof cases
  case (step_add a timer_id timeout ctxt cb periodic initial_delay h)
  then show ?thesis using add_timer_inv [OF inv] by blast
next
  case (step_del timer c)
  then show ?thesis using del_timer_inv [OF inv] by blast
next
  case (step_upd timer timeout periodic ctxt h)
  then show ?thesis using upd_timer_inv [OF inv] by blast
next
  case (step_tick msecs_elapsed)
  then show ?thesis using tick_inv [OF cb inv] by blast
qed

lemma wheel_inv_exactly_one:
  assumes "wheel_inv w"
  shows "exactly_one_linkage w"
proof -
  from assms obtain sl where l: "linked w sl" by (auto simp: wheel_inv_def)
  have ok: "lists_ok w sl" and slab: "twentry_slab_m w = (\<Union>i. set (sl i))"
    using l by (simp_all add: linked_iff)
  have A: "\<forall>i. i < nslices_m w \<longrightarrow> dlist (twentries w) 0 (slice_head_m w i) (sl i)"
    using l by (simp add: linked_def)
  have B: "\<forall>x \<in> twentry_slab_m w. \<exists>!i. i < nslices_m w \<and> x \<in> set (sl i)"
  proof
    fix x assume x: "x \<in> twentry_slab_m w"
    show "\<exists>!i. i < nslices_m w \<and> x \<in> set (sl i)"
    proof (rule ex1I [of _ "slice_m (twentries w x)"])
      show "slice_m (twentries w x) < nslices_m w \<and> x \<in> set (sl (slice_m (twentries w x)))"
        using linked_members [OF l x] by simp
    next
      fix i assume "i < nslices_m w \<and> x \<in> set (sl i)"
      then show "i = slice_m (twentries w x)" using lists_ok_members(2) [OF ok, of x i] by simp
    qed
  qed
  have C: "\<forall>i. i < nslices_m w \<longrightarrow> set (sl i) \<subseteq> twentry_slab_m w"
    using slab by blast
  have D: "num_entries_m w = of_nat (\<Sum>i | i < nslices_m w. length (sl i))"
    using l by (simp add: linked_def total_linked_def)
  show ?thesis unfolding exactly_one_linkage_def
    by (rule exI [of _ sl]) (intro conjI A B C D)
qed

lemma factory_wheel_inv:
  assumes "factory mem_ok slab_ok slices_ok m g D ts = Inr (Some w)"
  shows "wheel_inv w"
proof -
  have ok: "wheel_ok w" by (rule factory_wheel_ok [OF assms])
  have "linked w (\<lambda>_. [])"
    using assms
    by (auto simp: factory_def init_def twheel_destructor_def linked_def total_linked_def split: if_splits)
  then show ?thesis using ok by (auto simp: wheel_inv_def)
qed

lemma idle_callbacks_ok: "callbacks_ok idle_callbacks"
  by (simp add: callbacks_ok_def idle_callbacks_def)

lemma example_wheel_factory:
  "factory True True True blank_memory 100 1000 True = Inr (Some example_wheel)"
  by (simp add: example_wheel_def factory_def init_def)

lemma example_step_add: "wheel_step idle_callbacks example_wheel example_wheel_1"
  by (rule step_add [of 8192 example_wheel 1 350 4096 1280 False 0 8192])
     (simp_all add: example_add_timer, simp add: example_wheel_eq)

lemma example_tick_eq:
  "tick idle_callbacks example_wheel_1 400 =
     Some (Inr \<lparr> twentry_slab_m = {8192}, slice_intvl_m = 100, thread_safe_m = True,
       nslices_m = 10, slice_head_m = (\<lambda>_. 0)(4 := 8192), slock_m = (\<lambda>_. False),
       curr_slice_m = 4, num_entries_m = 1,
       twentries = blank_memory(8192 := \<lparr> timer_id_m = 1, timeout_m = 2000, periodic_m = False,
         valid_m = False, ctxt_m = 0, cb_m = 0, nspins_m = 2, slice_m = 4,
         next_m = 0, prev_m = 0 \<rparr>) \<rparr>)"
proof -
  have four: "(4::nat) = Suc (Suc (Suc (Suc 0)))" by simp
  have "tick idle_callbacks example_wheel_1 400 = tick_slices idle_callbacks 4 example_wheel_1"
    by (simp add: tick_def example_wheel_1_eq)
  then have c: "tick idle_callbacks example_wheel_1 400 =
           tick_slices idle_callbacks (Suc (Suc (Suc (Suc 0)))) example_wheel_1"
    by (simp only: four)
  show ?thesis
    unfolding c
    apply (simp add: example_wheel_1_eq)
    apply (simp add: TWHEEL_LOCK_SLICE_def TWHEEL_UNLOCK_SLICE_def last_timer_in_slice_def
        last_timer_from.simps tick_walk.simps Let_def)
    apply (simp add: tick_entry_def idle_callbacks_def wheel_eval_defs last_timer_in_slice_def
        last_timer_from.simps tick_walk.simps fun_upd_idem)
    done
qed

lemma example_wheel_4_eq:
  "example_wheel_4 = \<lparr> twentry_slab_m = {8192}, slice_intvl_m = 100, thread_safe_m = True,
       nslices_m = 10, slice_head_m = (\<lambda>_. 0)(4 := 8192), slock_m = (\<lambda>_. False),
       curr_slice_m = 4, num_entries_m = 1,
       twentries = blank_memory(8192 := \<lparr> timer_id_m = 1, timeout_m = 2000, periodic_m = False,
         valid_m = False, ctxt_m = 0, cb_m = 0, nspins_m = 2, slice_m = 4,
         next_m = 0, prev_m = 0 \<rparr>) \<rparr>"
  by (simp add: example_wheel_4_def example_tick_eq)

lemma example_step_tick: "wheel_step idle_callbacks example_wheel_1 example_wheel_4"
  by (rule step_tick [of idle_callbacks example_wheel_1 400])
     (simp add: example_tick_eq example_wheel_4_eq)

text \<open>
  C3. Every operation of the wheel that returns (\<open>add_timer\<close> with what the slab's
  \<open>alloc\<close> gave it, \<open>del_timer\<close> and \<open>upd_timer\<close> on null or on the handle of an entry
  that is not yet reclaimed, \<open>tick\<close> with callbacks that themselves keep to the
  interface of the wheel) preserves the invariant \<open>wheel_inv\<close>: every slice list is
  a well-formed doubly-linked list without repetition of entries whose \<open>slice_\<close> is the
  index of the list, the elements the slab has handed out are exactly the linked
  ones, and \<open>num_entries_\<close> is the number of linked entries, delay-delete corpses
  included. The invariant implies the wording of the specification: each entry that is
  allocated and not yet reclaimed is in exactly one slice list. \<open>factory\<close> establishes
  it (\<open>factory_wheel_inv\<close>).
\<close>

theorem linkage_invariant_preserved:
  assumes "callbacks_ok cbs" and "wheel_inv w" and "wheel_step cbs w w'"
  shows "wheel_inv w' \<and> exactly_one_linkage w'"
proof -
  have "wheel_inv w'" by (rule wheel_step_inv [OF assms])
  then show ?thesis by (simp add: wheel_inv_exactly_one)
qed

theorem linkage_invariant_preserved_witness:
  "callbacks_ok idle_callbacks \<and> wheel_inv example_wheel \<and>
   wheel_step idle_callbacks example_wheel example_wheel_1 \<and>
   twentry_slab_m example_wheel_1 = {8192} \<and> num_entries_m example_wheel_1 = 1 \<and>
   wheel_inv example_wheel_1 \<and> exactly_one_linkage example_wheel_1 \<and>
   tick idle_callbacks example_wheel_1 400 = Some (Inr example_wheel_4) \<and>
   wheel_step idle_callbacks example_wheel_1 example_wheel_4 \<and>
   twentry_slab_m example_wheel_4 = {8192} \<and> num_entries_m example_wheel_4 = 1 \<and>
   \<not> valid_m (twentries example_wheel_4 8192) \<and>
   wheel_inv example_wheel_4 \<and> exactly_one_linkage example_wheel_4"
proof -
  note a = idle_callbacks_ok
  note b = factory_wheel_inv [OF example_wheel_factory]
  note c = example_step_add
  have d: "twentry_slab_m example_wheel_1 = {8192} \<and> num_entries_m example_wheel_1 = 1"
    by (simp add: example_wheel_1_eq)
  note e = linkage_invariant_preserved [OF a b c]
  note f = example_step_tick
  have g: "tick idle_callbacks example_wheel_1 400 = Some (Inr example_wheel_4)"
    by (simp add: example_tick_eq example_wheel_4_eq)
  have h: "twentry_slab_m example_wheel_4 = {8192} \<and> num_entries_m example_wheel_4 = 1 \<and>
           \<not> valid_m (twentries example_wheel_4 8192)"
    by (simp add: example_wheel_4_eq)
  note i = linkage_invariant_preserved [OF a conjunct1 [OF e] f]
  show ?thesis
    by (intro conjI) (rule a b c f g conjunct1 [OF d] conjunct2 [OF d] conjunct1 [OF e]
        conjunct2 [OF e] conjunct1 [OF i] conjunct2 [OF i] conjunct1 [OF h]
        conjunct1 [OF conjunct2 [OF h]] conjunct2 [OF conjunct2 [OF h]])+
qed

section \<open>Proofs: construction\<close>

lemma factory_le: "(ucast (D :: 32 word) \<le> (g :: 64 word)) = (unat D \<le> unat g)"
  by (simp add: word_le_nat_alt unat_ucast_32_64)

text \<open>
  C8. \<open>twheel::factory(g, D, thread_safe)\<close> returns the null wheel when \<open>g = 0\<close>, or
  \<open>D = 0\<close>, or \<open>D \<le> g\<close>, or the wheel object or the slab cannot be allocated, and a
  wheel that it returns has \<open>N = D div g\<close> slices, \<open>curr_slice = 0\<close> and
  \<open>num_entries = 0\<close>. When the slice array cannot be allocated it does not reach its
  \<open>return NULL\<close>: \<open>init\<close> has destroyed the slab and left \<open>twentry_slab_\<close> pointing to
  it, and the destructor that \<open>factory\<close> runs destroys that slab a second time. This
  is the case for every accepted \<open>g\<close> and \<open>D\<close>, thread-safe or not.
\<close>

theorem factory_slice_alloc_failure:
  "(factory mem_ok slab_ok slices_ok m g D ts = Inl DoubleFree \<longleftrightarrow>
      g \<noteq> 0 \<and> D \<noteq> 0 \<and> unat g < unat D \<and> mem_ok \<and> slab_ok \<and> \<not> slices_ok) \<and>
   (factory mem_ok slab_ok slices_ok m g D ts = Inr None \<longleftrightarrow>
      g = 0 \<or> D = 0 \<or> unat D \<le> unat g \<or> \<not> mem_ok \<or> \<not> slab_ok) \<and>
   factory mem_ok slab_ok slices_ok m g D ts \<noteq> Inl NullSliceArray \<and>
   (\<forall>w. factory mem_ok slab_ok slices_ok m g D ts = Inr (Some w) \<longrightarrow>
      unat (nslices_m w) = unat D div unat g \<and> curr_slice_m w = 0 \<and> num_entries_m w = 0)"
proof -
  have 1: "factory mem_ok slab_ok slices_ok m g D ts = Inl DoubleFree \<longleftrightarrow>
           g \<noteq> 0 \<and> D \<noteq> 0 \<and> unat g < unat D \<and> mem_ok \<and> slab_ok \<and> \<not> slices_ok"
    by (auto simp: factory_def init_def twheel_destructor_def factory_le)
  have 2: "factory mem_ok slab_ok slices_ok m g D ts = Inr None \<longleftrightarrow>
           g = 0 \<or> D = 0 \<or> unat D \<le> unat g \<or> \<not> mem_ok \<or> \<not> slab_ok"
    by (auto simp: factory_def init_def twheel_destructor_def factory_le)
  have 3: "factory mem_ok slab_ok slices_ok m g D ts \<noteq> Inl NullSliceArray"
    by (auto simp: factory_def init_def twheel_destructor_def)
  have 4: "\<forall>w. factory mem_ok slab_ok slices_ok m g D ts = Inr (Some w) \<longrightarrow>
             unat (nslices_m w) = unat D div unat g \<and> curr_slice_m w = 0 \<and> num_entries_m w = 0"
    by (auto simp: factory_def init_def twheel_destructor_def unat_nslices_factory
        split: if_splits)
  show ?thesis by (intro conjI 1 2 3 4)
qed

theorem factory_slice_alloc_failure_witness:
  "factory True True False blank_memory 100 1000 False = Inl DoubleFree \<and>
   factory True True False blank_memory 100 1000 True = Inl DoubleFree \<and>
   init True False blank_memory 100 1000 False =
     Inl \<lparr> obj_twentry_slab = DestroyedSlab, obj_thread_safe = False, obj_nslices = 10,
           obj_twheel = False \<rparr> \<and>
   factory True False True blank_memory 100 1000 False = Inr None \<and>
   factory True True True blank_memory 1000 1000 False = Inr None \<and>
   factory True True True blank_memory 100 1000 True = Inr (Some example_wheel) \<and>
   unat (nslices_m example_wheel) = 10 \<and> curr_slice_m example_wheel = 0 \<and>
   num_entries_m example_wheel = 0"
proof -
  have i: "init True False blank_memory 100 1000 False =
     Inl \<lparr> obj_twentry_slab = DestroyedSlab, obj_thread_safe = False, obj_nslices = 10,
           obj_twheel = False \<rparr>"
    by (simp add: init_def)
  have e: "factory True True True blank_memory 100 1000 True = Inr (Some example_wheel)"
    by (simp add: example_wheel_def factory_def init_def)
  show ?thesis
    using factory_slice_alloc_failure [of True True False blank_memory 100 1000 False]
          factory_slice_alloc_failure [of True True False blank_memory 100 1000 True]
          factory_slice_alloc_failure [of True False True blank_memory 100 1000 False]
          factory_slice_alloc_failure [of True True True blank_memory 1000 1000 False]
          factory_slice_alloc_failure [of True True True blank_memory 100 1000 True]
          i e
    by simp
qed

section \<open>Proofs: deleting a timer twice\<close>

lemma num_entries_unlink:
  "t \<noteq> 0 \<Longrightarrow> num_entries_m (unlink_timer_m w t) = num_entries_m w - 1"
  by (simp add: unlink_timer_m_def Let_def)

lemma num_entries_remove:
  "t \<noteq> 0 \<Longrightarrow> valid_m (twentries w t) \<Longrightarrow>
   num_entries_m (remove_timer_m w t) = num_entries_m w - 1"
  by (simp add: remove_timer_m_def Let_def num_entries_unlink)

lemma num_entries_insert: "num_entries_m (insert_timer_m w t) = num_entries_m w + 1"
  by (simp add: insert_timer_m_def Let_def)

lemma delay_delete_m_entry:
  assumes "delay_delete_m w t = Inr w'"
  shows "cb_m (twentries w' t) = 0" "ctxt_m (twentries w' t) = 0" "\<not> valid_m (twentries w' t)"
    "num_entries_m w' = num_entries_m w + 1"
proof -
  define s where "s = next_slice_m w TWHEEL_DELAY_DELETE (slice_m (twentries w t)) True"
  from assms obtain w1 where lk: "TWHEEL_LOCK_SLICE w s = Inr w1"
    and w': "w' = TWHEEL_UNLOCK_SLICE
               ((insert_timer_m (init_twentry_m w1 t (timer_id_m (twentries w1 t))
                     TWHEEL_DELAY_DELETE False 0 0 s) t)
                 \<lparr>twentries := set_valid (twentries (insert_timer_m (init_twentry_m w1 t
                     (timer_id_m (twentries w1 t)) TWHEEL_DELAY_DELETE False 0 0 s) t)) t False\<rparr>) s"
    by (auto simp: delay_delete_m_def Let_def s_def split: sum.splits)
  note rl = ring_lock [OF lk]
  show "cb_m (twentries w' t) = 0" "ctxt_m (twentries w' t) = 0"
    by (simp_all add: w')
  show "\<not> valid_m (twentries w' t)" by (simp add: w' set_valid_def)
  show "num_entries_m w' = num_entries_m w + 1"
    by (simp add: w' num_entries_insert rl)
qed

lemma linked_dlist:
  "linked w sl \<Longrightarrow> i < nslices_m w \<Longrightarrow> dlist (twentries w) 0 (slice_head_m w i) (sl i)"
  by (simp add: linked_def)

lemma linked_head_member:
  assumes l: "linked w sl" and i: "i < nslices_m w" and h: "slice_head_m w i \<noteq> 0"
  shows "slice_head_m w i \<in> set (sl i)"
proof -
  have dl: "dlist (twentries w) 0 (slice_head_m w i) (sl i)"
    using l i by (simp add: linked_def)
  from dlist_head [OF dl] h have "sl i \<noteq> []" "slice_head_m w i = hd (sl i)"
    by (auto split: if_splits)
  then show ?thesis by simp
qed

lemma word_pred_succ: "(x :: 32 word) - 1 + 1 = x"
  by simp

text \<open>
  C1, as amended. For the handle of a live entry (allocated, \<open>valid\<close>) on a wheel that
  satisfies the linkage invariant, with no slice lock held, a first \<open>del_timer(h)\<close>
  returns the context stored in the entry and moves the entry to delayed deletion: it
  is re-initialised with \<open>valid = false\<close>, a null context and a null callback, it is
  unlinked from its slice and linked at the head of the slice
  \<open>next_slice_(2000, entry_slice, true)\<close> of the ring, which on a wheel of two slices or
  more is another slice than before; it is then in the list of that slice and of no
  other, \<open>num_entries\<close> and the slab are as before, and the linkage invariant holds
  again. A second \<open>del_timer(h)\<close> returns without changing the wheel, and what it
  returns is that null context.
\<close>

theorem del_timer_twice:
  assumes "wheel_inv w" and "timer \<in> twentry_slab_m w" and "valid_m (twentries w timer)"
    and "\<forall>i. \<not> slock_m w i"
  shows "\<exists>w1. del_timer w timer = Inr (ctxt_m (twentries w timer), w1) \<and>
           \<not> valid_m (twentries w1 timer) \<and> ctxt_m (twentries w1 timer) = 0 \<and>
           cb_m (twentries w1 timer) = 0 \<and>
           slice_m (twentries w1 timer) =
             next_slice_m w TWHEEL_DELAY_DELETE (slice_m (twentries w timer)) True \<and>
           slice_m (twentries w1 timer) < nslices_m w1 \<and>
           slice_head_m w1 (slice_m (twentries w1 timer)) = timer \<and>
           prev_m (twentries w1 timer) = 0 \<and>
           num_entries_m w1 = num_entries_m w \<and>
           twentry_slab_m w1 = twentry_slab_m w \<and>
           wheel_inv w1 \<and>
           (\<forall>sl i. linked w1 sl \<longrightarrow>
              (timer \<in> set (sl i) \<longleftrightarrow> i = slice_m (twentries w1 timer))) \<and>
           (2 \<le> unat (nslices_m w) \<longrightarrow>
              slice_m (twentries w1 timer) \<noteq> slice_m (twentries w timer) \<and>
              slice_head_m w1 (slice_m (twentries w timer)) \<noteq> timer) \<and>
           (\<forall>i. \<not> slock_m w1 i) \<and>
           del_timer w1 timer = Inr (0, w1)"
proof -
  let ?s = "slice_m (twentries w timer)"
  from assms(1) obtain sl0 where ok: "wheel_ok w" and l0: "linked w sl0"
    by (auto simp: wheel_inv_def)
  note mem0 = linked_members [OF l0 assms(2)]
  have t0: "timer \<noteq> 0" by (rule mem0(3))
  define w1 where "w1 = (if thread_safe_m w then w\<lparr>slock_m := (slock_m w)(?s := True)\<rparr> else w)"
  define w3 where "w3 = TWHEEL_UNLOCK_SLICE (remove_timer_m w1 timer) ?s"
  have l: "TWHEEL_LOCK_SLICE w ?s = Inr w1"
    unfolding w1_def by (rule lock_slice_all_free [OF assms(4)])
  have v1: "valid_m (twentries w1 timer)" using assms(3) by (simp add: w1_def)
  have free3: "\<forall>i. \<not> slock_m w3 i" using assms(4) by (simp add: w3_def w1_def)
  have ring3: "nslices_m w3 = nslices_m w" "slice_intvl_m w3 = slice_intvl_m w"
    "curr_slice_m w3 = curr_slice_m w"
    by (simp_all add: w3_def w1_def)
  have s3: "slice_m (twentries w3 timer) = ?s" by (simp add: w3_def w1_def)
  have n1: "num_entries_m w1 = num_entries_m w" by (simp add: w1_def)
  have n3: "num_entries_m w3 = num_entries_m w - 1"
    by (simp add: w3_def num_entries_remove [OF t0 v1] n1)
  from delay_delete_m_free [OF free3, of timer] obtain w4 where
    d: "delay_delete_m w3 timer = Inr w4" and free4: "\<forall>i. \<not> slock_m w4 i"
    and v4: "\<not> valid_m (twentries w4 timer)" and c4: "ctxt_m (twentries w4 timer) = 0"
    and s4: "slice_m (twentries w4 timer) =
             next_slice_m w3 TWHEEL_DELAY_DELETE (slice_m (twentries w3 timer)) True"
    and h4: "slice_head_m w4 (slice_m (twentries w4 timer)) = timer"
    and ring4: "nslices_m w4 = nslices_m w3"
    by blast
  note e4 = delay_delete_m_entry [OF d]
  have r1: "del_timer w timer = Inr (ctxt_m (twentries w timer), w4)"
    using t0 l v1 d by (simp add: del_timer_def Let_def w3_def)
  have ns: "next_slice_m w3 = next_slice_m w" by (rule next_slice_m_ring [OF ring3])
  have s4': "slice_m (twentries w4 timer) = next_slice_m w TWHEEL_DELAY_DELETE ?s True"
    by (simp add: s4 ns s3)
  have n0: "nslices_m w \<noteq> 0" using ok by (simp add: wheel_ok_def)
  have lt: "slice_m (twentries w4 timer) < nslices_m w4"
    using next_slice_m_lt [OF n0] by (simp add: s4 ns ring4 ring3)
  have r2: "del_timer w4 timer = Inr (0, w4)"
    using del_timer_invalid_noop [OF free4 t0 v4] by (simp add: c4)
  have n4: "num_entries_m w4 = num_entries_m w"
    by (simp add: e4(4) n3)
  have "timer = 0 \<or> timer \<in> twentry_slab_m w" using assms(2) by simp
  from del_timer_inv [OF assms(1) this r1]
  have inv4: "wheel_inv w4" and slab4: "twentry_slab_m w4 = twentry_slab_m w" by simp_all
  have t4: "timer \<in> twentry_slab_m w4" using assms(2) slab4 by simp
  have only: "timer \<in> set (sl i) \<longleftrightarrow> i = slice_m (twentries w4 timer)"
    if ls: "linked w4 sl" for sl i
  proof
    assume "timer \<in> set (sl i)"
    then show "i = slice_m (twentries w4 timer)"
      using lists_ok_members(2) [of w4 sl timer i] ls by (simp add: linked_iff)
  next
    assume "i = slice_m (twentries w4 timer)"
    then show "timer \<in> set (sl i)" using linked_members(1) [OF ls t4] by simp
  qed
  have pr: "prev_m (twentries w4 timer) = 0"
  proof -
    from inv4 obtain sl where ls: "linked w4 sl" by (auto simp: wheel_inv_def)
    let ?i = "slice_m (twentries w4 timer)"
    have iN: "?i < nslices_m w4" by (rule lt)
    have dl: "dlist (twentries w4) 0 (slice_head_m w4 ?i) (sl ?i)"
      by (rule linked_dlist [OF ls iN])
    have ne: "sl ?i \<noteq> []" using linked_members(1) [OF ls t4] by auto
    then obtain x xs where xs: "sl ?i = x # xs" by (cases "sl ?i") auto
    have "dlist (twentries w4) 0 timer (x # xs)" using dl h4 xs by simp
    then have "timer = x" "prev_m (twentries w4 x) = 0" by simp_all
    then show ?thesis by simp
  qed
  have moved: "slice_m (twentries w4 timer) \<noteq> ?s \<and> slice_head_m w4 ?s \<noteq> timer"
    if N: "2 \<le> unat (nslices_m w)"
  proof -
    have ne: "slice_m (twentries w4 timer) \<noteq> ?s"
      using next_slice_m_update_neq [OF N] by (simp add: s4')
    from inv4 obtain sl where ls: "linked w4 sl" by (auto simp: wheel_inv_def)
    have sN: "?s < nslices_m w4" using mem0(2) by (simp add: ring4 ring3)
    have "slice_head_m w4 ?s \<noteq> timer"
    proof
      assume h: "slice_head_m w4 ?s = timer"
      then have "slice_head_m w4 ?s \<noteq> 0" using t0 by simp
      from linked_head_member [OF ls sN this] h have "timer \<in> set (sl ?s)" by simp
      then show False using only [OF ls, of ?s] ne by simp
    qed
    then show ?thesis using ne by simp
  qed
  show ?thesis
  proof (intro exI [of _ w4] conjI allI impI)
    show "del_timer w timer = Inr (ctxt_m (twentries w timer), w4)" by (rule r1)
    show "\<not> valid_m (twentries w4 timer)" by (rule v4)
    show "ctxt_m (twentries w4 timer) = 0" by (rule c4)
    show "cb_m (twentries w4 timer) = 0" by (rule e4(1))
    show "slice_m (twentries w4 timer) = next_slice_m w TWHEEL_DELAY_DELETE ?s True" by (rule s4')
    show "slice_m (twentries w4 timer) < nslices_m w4" by (rule lt)
    show "slice_head_m w4 (slice_m (twentries w4 timer)) = timer" by (rule h4)
    show "prev_m (twentries w4 timer) = 0" by (rule pr)
    show "num_entries_m w4 = num_entries_m w" by (rule n4)
    show "twentry_slab_m w4 = twentry_slab_m w" by (rule slab4)
    show "wheel_inv w4" by (rule inv4)
    show "del_timer w4 timer = Inr (0, w4)" by (rule r2)
  next
    fix sl i assume "linked w4 sl"
    then show "timer \<in> set (sl i) \<longleftrightarrow> i = slice_m (twentries w4 timer)" by (rule only)
  next
    assume "2 \<le> unat (nslices_m w)"
    then show "slice_m (twentries w4 timer) \<noteq> ?s" using moved by simp
  next
    assume "2 \<le> unat (nslices_m w)"
    then show "slice_head_m w4 ?s \<noteq> timer" using moved by simp
  next
    fix i show "\<not> slock_m w4 i" using free4 by simp
  qed
qed

lemma example_wheel_1_inv: "wheel_inv example_wheel_1"
proof -
  have a: "(8192 :: ptr) = 0 \<or> 8192 \<notin> twentry_slab_m example_wheel"
    by (simp add: example_wheel_eq)
  from add_timer_inv [OF factory_wheel_inv [OF example_wheel_factory] a example_add_timer]
  show ?thesis by simp
qed

theorem del_timer_twice_witness:
  "wheel_inv example_wheel_1 \<and> 8192 \<in> twentry_slab_m example_wheel_1 \<and>
   valid_m (twentries example_wheel_1 8192) \<and>
   slice_m (twentries example_wheel_1 8192) = 3 \<and> slice_head_m example_wheel_1 3 = 8192 \<and>
   num_entries_m example_wheel_1 = 1 \<and>
   del_timer example_wheel_1 8192 = Inr (4096, example_wheel_2) \<and>
   \<not> valid_m (twentries example_wheel_2 8192) \<and>
   ctxt_m (twentries example_wheel_2 8192) = 0 \<and> cb_m (twentries example_wheel_2 8192) = 0 \<and>
   slice_m (twentries example_wheel_2 8192) = 1 \<and>
   slice_head_m example_wheel_2 1 = 8192 \<and> slice_head_m example_wheel_2 3 = 0 \<and>
   num_entries_m example_wheel_2 = 1 \<and> wheel_inv example_wheel_2 \<and>
   del_timer example_wheel_2 8192 = Inr (0, example_wheel_2)"
proof -
  have m: "8192 \<in> twentry_slab_m example_wheel_1" by (simp add: example_wheel_1_eq)
  have v: "valid_m (twentries example_wheel_1 8192)" by (simp add: example_wheel_1_eq)
  have free: "\<forall>i. \<not> slock_m example_wheel_1 i" by (simp add: example_wheel_1_eq)
  have f1: "slice_m (twentries example_wheel_1 8192) = 3" "slice_head_m example_wheel_1 3 = 8192"
    "num_entries_m example_wheel_1 = 1"
    by (simp_all add: example_wheel_1_eq)
  have f2: "\<not> valid_m (twentries example_wheel_2 8192)"
    "ctxt_m (twentries example_wheel_2 8192) = 0" "cb_m (twentries example_wheel_2 8192) = 0"
    "slice_m (twentries example_wheel_2 8192) = 1"
    "slice_head_m example_wheel_2 1 = 8192" "slice_head_m example_wheel_2 3 = 0"
    "num_entries_m example_wheel_2 = 1"
    by (simp_all add: example_wheel_2_eq)
  from del_timer_twice [OF example_wheel_1_inv m v free] obtain w1 where
    r: "del_timer example_wheel_1 8192 = Inr (ctxt_m (twentries example_wheel_1 8192), w1)"
    and i: "wheel_inv w1" and r2: "del_timer w1 8192 = Inr (0, w1)"
    by blast
  have w1: "w1 = example_wheel_2" using r by (simp add: example_del_timer_1)
  have d1: "del_timer example_wheel_1 8192 = Inr (4096, example_wheel_2)"
    by (rule example_del_timer_1)
  have i2: "wheel_inv example_wheel_2" using i w1 by simp
  have d2: "del_timer example_wheel_2 8192 = Inr (0, example_wheel_2)" using r2 w1 by simp
  show ?thesis
    by (intro conjI) (rule example_wheel_1_inv m v f1 f2 d1 i2 d2)+
qed

text \<open>
  C1 as it is stated fails: on the example wheel the first \<open>del_timer\<close> of the live
  handle returns the context 4096 that \<open>add_timer\<close> stored, the second returns null.
\<close>

theorem del_timer_twice_counterexample:
  "add_timer example_wheel 8192 1 350 4096 1280 False 0 = Inr (8192, example_wheel_1) \<and>
   valid_m (twentries example_wheel_1 8192) \<and>
   del_timer example_wheel_1 8192 = Inr (4096, example_wheel_2) \<and>
   del_timer example_wheel_2 8192 = Inr (0, example_wheel_2) \<and>
   (0 :: ptr) \<noteq> 4096"
proof -
  have "valid_m (twentries example_wheel_1 8192)" by (simp add: example_wheel_1_eq)
  then show ?thesis
    by (simp add: example_add_timer example_del_timer_1 example_del_timer_2)
qed

section \<open>Proofs: slice selection and the locks of a reschedule\<close>

lemma next_slice_m_spec32:
  assumes ok: "wheel_ok w"
  shows "unat (next_slice_m w timeout entry_slice update) =
         next_slice_spec32 (unat (nslices_m w)) (unat (slice_intvl_m w)) (unat (curr_slice_m w))
           (unat timeout) (unat entry_slice) update"
proof -
  let ?N = "unat (nslices_m w)" and ?g = "unat (slice_intvl_m w)" and ?c = "unat (curr_slice_m w)"
  define k0 :: "32 word" where
    "k0 = ucast ((ucast (ucast (timeout mod (ucast (nslices_m w) * slice_intvl_m w)) :: 32 word) :: 64 word)
                 div slice_intvl_m w)"
  define k :: "32 word" where "k = (if k0 = 0 then 1 else k0)"
  define s where "s = (curr_slice_m w + k) mod nslices_m w"
  have k0: "unat k0 = (unat timeout mod (?N * ?g)) div ?g"
    unfolding k0_def by (rule unat_num_slices [OF ok])
  have N0: "0 < ?N" using wheel_ok_pos [OF ok] by simp
  have k: "unat k = max 1 ((unat timeout mod (?N * ?g)) div ?g)"
    using k0 unat_eq_0 [of k0] by (auto simp: k_def max_def)
  have ck: "unat (curr_slice_m w + k) = (?c + unat k) mod 4294967296"
    by (simp add: unat_word_ariths)
  have s: "unat s = ((?c + unat k) mod 4294967296) mod ?N"
    by (simp add: s_def unat_mod ck)
  have sN: "unat s < ?N" using s N0 by simp
  have "unat s + 1 < 4294967296" using sN unat_lt_2p32 [of "nslices_m w"] by linarith
  then have "unat (s + 1) = unat s + 1" by (simp add: unat_word_ariths)
  then have s1: "unat ((s + 1) mod nslices_m w) = (unat s + 1) mod ?N"
    by (simp add: unat_mod)
  have r: "next_slice_m w timeout entry_slice update =
           (if update \<and> s = entry_slice then (s + 1) mod nslices_m w else s)"
    by (auto simp: next_slice_m_def Let_def s_def k_def k0_def)
  show ?thesis
    by (simp add: r next_slice_spec32_def Let_def s s1 k word_unat_eq_iff [of s entry_slice])
qed

lemma big_wheel_2_tick:
  "tick idle_callbacks big_wheel 2 = Some (Inr (big_wheel\<lparr>curr_slice_m := 2\<rparr>))"
proof -
  have two: "(2::nat) = Suc (Suc 0)" by simp
  have "tick idle_callbacks big_wheel 2 = tick_slices idle_callbacks 2 big_wheel"
    by (simp add: tick_def big_wheel_eq word_less_nat_alt)
  then have c: "tick idle_callbacks big_wheel 2 = tick_slices idle_callbacks (Suc (Suc 0)) big_wheel"
    by (simp only: two)
  show ?thesis
    unfolding c
    by (simp add: big_wheel_eq TWHEEL_LOCK_SLICE_def TWHEEL_UNLOCK_SLICE_def
        last_timer_in_slice_def last_timer_from.simps tick_walk.simps Let_def)
qed

lemma big_wheel_2_eq:
  "big_wheel_2 = \<lparr> twentry_slab_m = {}, slice_intvl_m = 1, thread_safe_m = False,
     nslices_m = 4294967295, slice_head_m = (\<lambda>_. 0), slock_m = (\<lambda>_. False), curr_slice_m = 2,
     num_entries_m = 0, twentries = blank_memory \<rparr>"
  by (simp add: big_wheel_2_def big_wheel_2_tick) (simp add: big_wheel_eq)

lemma big_wheel_2_ok: "wheel_ok big_wheel_2"
  by (simp add: big_wheel_2_eq wheel_ok_def word_less_nat_alt)

lemma example_upd_timer:
  "upd_timer example_wheel_1 8192 350 False 4096 =
     Inr (8192, \<lparr> twentry_slab_m = {8192}, slice_intvl_m = 100, thread_safe_m = True,
       nslices_m = 10, slice_head_m = (\<lambda>_. 0)(4 := 8192), slock_m = (\<lambda>_. False),
       curr_slice_m = 0, num_entries_m = 1,
       twentries = blank_memory(8192 := \<lparr> timer_id_m = 1, timeout_m = 350, periodic_m = False,
         valid_m = True, ctxt_m = 4096, cb_m = 1280, nspins_m = 0, slice_m = 4,
         next_m = 0, prev_m = 0 \<rparr>) \<rparr>)"
  by (simp add: example_wheel_1_eq wheel_eval_defs fun_upd_idem)

lemma example_wheel_locked_eq:
  "example_wheel_locked = \<lparr> twentry_slab_m = {8192}, slice_intvl_m = 100, thread_safe_m = True,
     nslices_m = 10, slice_head_m = (\<lambda>_. 0)(3 := 8192), slock_m = (\<lambda>_. False)(3 := True),
     curr_slice_m = 0, num_entries_m = 1,
     twentries = blank_memory(8192 := \<lparr> timer_id_m = 1, timeout_m = 350, periodic_m = False,
       valid_m = True, ctxt_m = 4096, cb_m = 1280, nspins_m = 0, slice_m = 3,
       next_m = 0, prev_m = 0 \<rparr>) \<rparr>"
  by (simp add: example_wheel_locked_def example_wheel_1_eq TWHEEL_LOCK_SLICE_def)

lemma example_upd_timer_m:
  "upd_timer_m example_wheel_locked 8192 350 True =
     Inr \<lparr> twentry_slab_m = {8192}, slice_intvl_m = 100, thread_safe_m = True,
       nslices_m = 10, slice_head_m = (\<lambda>_. 0)(4 := 8192), slock_m = (\<lambda>_. False)(3 := True),
       curr_slice_m = 0, num_entries_m = 1,
       twentries = blank_memory(8192 := \<lparr> timer_id_m = 1, timeout_m = 350, periodic_m = True,
         valid_m = True, ctxt_m = 4096, cb_m = 1280, nspins_m = 0, slice_m = 4,
         next_m = 0, prev_m = 0 \<rparr>) \<rparr>"
  by (simp add: example_wheel_locked_eq wheel_eval_defs fun_upd_idem fun_upd_twist)

lemma example_wheel_5_eq:
  "example_wheel_5 = \<lparr> twentry_slab_m = {8192}, slice_intvl_m = 100, thread_safe_m = True,
       nslices_m = 10, slice_head_m = (\<lambda>_. 0)(4 := 8192), slock_m = (\<lambda>_. False),
       curr_slice_m = 0, num_entries_m = 1,
       twentries = blank_memory(8192 := \<lparr> timer_id_m = 1, timeout_m = 350, periodic_m = False,
         valid_m = True, ctxt_m = 4096, cb_m = 1280, nspins_m = 0, slice_m = 4,
         next_m = 0, prev_m = 0 \<rparr>) \<rparr>"
  by (simp add: example_wheel_5_def example_upd_timer)

lemma example_wheel_6_eq:
  "example_wheel_6 = \<lparr> twentry_slab_m = {8192}, slice_intvl_m = 100, thread_safe_m = True,
       nslices_m = 10, slice_head_m = (\<lambda>_. 0)(4 := 8192), slock_m = (\<lambda>_. False)(3 := True),
       curr_slice_m = 0, num_entries_m = 1,
       twentries = blank_memory(8192 := \<lparr> timer_id_m = 1, timeout_m = 350, periodic_m = True,
         valid_m = True, ctxt_m = 4096, cb_m = 1280, nspins_m = 0, slice_m = 4,
         next_m = 0, prev_m = 0 \<rparr>) \<rparr>"
  by (simp add: example_wheel_6_def example_upd_timer_m)

lemma example_wheel_locked_ok: "wheel_ok example_wheel_locked"
  by (simp add: example_wheel_locked_eq wheel_ok_def)

text \<open>
  C2, as amended. On a wheel with at least two slices,
  \<open>next_slice_(timeout, entry_slice, true)\<close> is a slice of the ring other than
  \<open>entry_slice\<close>, for every timeout and every \<open>entry_slice\<close>: it is the candidate that
  \<open>update = false\<close> gives, advanced by one slot when that is \<open>entry_slice\<close>. The
  candidate is \<open>((curr_slice + max(1, (timeout mod (N\<cdot>g))/g)) mod 2^32) mod N\<close>, the sum
  being a 32-bit sum; up to \<open>2^31\<close> slices the sum does not wrap and the candidate is
  \<open>(curr_slice + max(1, (timeout mod (N\<cdot>g))/g)) mod N\<close>. Hence \<open>upd_timer\<close>, entered with
  no slice lock held, and the internal reschedule \<open>upd_timer_\<close>, entered with at most
  the lock of the entry's slice held, never take a lock that is already held.
\<close>

theorem next_slice_update_avoids_entry_slice:
  assumes "wheel_ok w" and "2 \<le> unat (nslices_m w)"
  shows "next_slice_m w timeout entry_slice True \<noteq> entry_slice \<and>
         next_slice_m w timeout entry_slice True < nslices_m w \<and>
         next_slice_m w timeout entry_slice True =
           (let candidate = next_slice_m w timeout entry_slice False
            in if candidate = entry_slice then (candidate + 1) mod nslices_m w else candidate) \<and>
         unat (next_slice_m w timeout entry_slice False) =
           ((unat (curr_slice_m w) +
             max 1 ((unat timeout mod (unat (nslices_m w) * unat (slice_intvl_m w)))
                    div unat (slice_intvl_m w))) mod 2 ^ 32) mod unat (nslices_m w) \<and>
         unat (next_slice_m w timeout entry_slice True) =
           next_slice_spec32 (unat (nslices_m w)) (unat (slice_intvl_m w)) (unat (curr_slice_m w))
             (unat timeout) (unat entry_slice) True \<and>
         (unat (nslices_m w) \<le> 2 ^ 31 \<longrightarrow>
            unat (next_slice_m w timeout entry_slice True) =
            next_slice_spec (unat (nslices_m w)) (unat (slice_intvl_m w)) (unat (curr_slice_m w))
              (unat timeout) (unat entry_slice) True) \<and>
         ((\<forall>i. \<not> slock_m w i) \<longrightarrow>
            upd_timer w timer timeout periodic ctxt \<noteq> Inl SelfDeadlock) \<and>
         ((\<forall>i. slock_m w i \<longrightarrow> i = slice_m (twentries w twentry)) \<longrightarrow>
            upd_timer_m w twentry timeout periodic \<noteq> Inl SelfDeadlock)"
proof -
  have n0: "nslices_m w \<noteq> 0" using assms(1) by (simp add: wheel_ok_def)
  have 1: "next_slice_m w timeout entry_slice True \<noteq> entry_slice"
    by (rule next_slice_m_update_neq [OF assms(2)])
  have 2: "next_slice_m w timeout entry_slice True < nslices_m w"
    by (rule next_slice_m_lt [OF n0])
  have 3: "next_slice_m w timeout entry_slice True =
           (let candidate = next_slice_m w timeout entry_slice False
            in if candidate = entry_slice then (candidate + 1) mod nslices_m w else candidate)"
    by (simp add: next_slice_m_def Let_def)
  have 4: "unat (next_slice_m w timeout entry_slice False) =
           ((unat (curr_slice_m w) +
             max 1 ((unat timeout mod (unat (nslices_m w) * unat (slice_intvl_m w)))
                    div unat (slice_intvl_m w))) mod 2 ^ 32) mod unat (nslices_m w)"
    using next_slice_m_spec32 [OF assms(1), of timeout entry_slice False]
    by (simp add: next_slice_spec32_def Let_def)
  note 5 = next_slice_m_spec32 [OF assms(1), of timeout entry_slice True]
  have 6: "unat (nslices_m w) \<le> 2 ^ 31 \<longrightarrow>
            unat (next_slice_m w timeout entry_slice True) =
            next_slice_spec (unat (nslices_m w)) (unat (slice_intvl_m w)) (unat (curr_slice_m w))
              (unat timeout) (unat entry_slice) True"
    using next_slice_m_spec [OF assms(1)] by blast
  have 7: "(\<forall>i. \<not> slock_m w i) \<longrightarrow> upd_timer w timer timeout periodic ctxt \<noteq> Inl SelfDeadlock"
    using upd_timer_no_self_deadlock [OF assms(2)] by blast
  have 8: "(\<forall>i. slock_m w i \<longrightarrow> i = slice_m (twentries w twentry)) \<longrightarrow>
            upd_timer_m w twentry timeout periodic \<noteq> Inl SelfDeadlock"
    using upd_timer_m_no_self_deadlock [OF assms(2)] by blast
  show ?thesis by (intro conjI 1 2 3 4 5 6 7 8)
qed

theorem next_slice_update_avoids_entry_slice_witness:
  "wheel_ok example_wheel_1 \<and> 2 \<le> unat (nslices_m example_wheel_1) \<and>
   slice_m (twentries example_wheel_1 8192) = 3 \<and> valid_m (twentries example_wheel_1 8192) \<and>
   next_slice_m example_wheel_1 350 3 False = 3 \<and>
   next_slice_m example_wheel_1 350 3 True = 4 \<and>
   next_slice_spec32 10 100 0 350 3 True = 4 \<and>
   next_slice_spec 10 100 0 350 3 True = 4 \<and>
   upd_timer example_wheel_1 8192 350 False 4096 = Inr (8192, example_wheel_5) \<and>
   slice_m (twentries example_wheel_5 8192) = 4 \<and>
   slock_m example_wheel_locked 3 \<and>
   upd_timer_m example_wheel_locked 8192 350 True = Inr example_wheel_6 \<and>
   slice_m (twentries example_wheel_6 8192) = 4 \<and>
   upd_timer example_wheel_1 8192 350 False 4096 \<noteq> Inl SelfDeadlock \<and>
   upd_timer_m example_wheel_locked 8192 350 True \<noteq> Inl SelfDeadlock"
proof -
  have N: "2 \<le> unat (nslices_m example_wheel_1)" by (simp add: example_wheel_1_eq)
  have NL: "2 \<le> unat (nslices_m example_wheel_locked)" by (simp add: example_wheel_locked_eq)
  have e: "slice_m (twentries example_wheel_1 8192) = 3 \<and> valid_m (twentries example_wheel_1 8192)"
    by (simp add: example_wheel_1_eq)
  have a: "next_slice_m example_wheel_1 350 3 False = 3"
    by (simp add: example_wheel_1_eq next_slice_m_def)
  have small: "unat (nslices_m example_wheel_1) \<le> 2 ^ 31" by (simp add: example_wheel_1_eq)
  have free: "\<forall>i. \<not> slock_m example_wheel_1 i" by (simp add: example_wheel_1_eq)
  have held: "\<forall>i. slock_m example_wheel_locked i \<longrightarrow> i = slice_m (twentries example_wheel_locked 8192)"
    by (simp add: example_wheel_locked_eq)
  have l: "slock_m example_wheel_locked 3" by (simp add: example_wheel_locked_eq)
  have s: "next_slice_spec 10 100 0 350 3 True = 4" "next_slice_spec32 10 100 0 350 3 True = 4"
    by (simp_all add: next_slice_spec_def next_slice_spec32_def)
  have u: "upd_timer example_wheel_1 8192 350 False 4096 = Inr (8192, example_wheel_5)"
    by (simp add: example_upd_timer example_wheel_5_eq)
  have um: "upd_timer_m example_wheel_locked 8192 350 True = Inr example_wheel_6"
    by (simp add: example_upd_timer_m example_wheel_6_eq)
  have f: "slice_m (twentries example_wheel_5 8192) = 4" "slice_m (twentries example_wheel_6 8192) = 4"
    by (simp_all add: example_wheel_5_eq example_wheel_6_eq)
  note t1 = next_slice_update_avoids_entry_slice [OF example_wheel_1_ok N, of 350 3 8192 False 4096 8192]
  note t2 = next_slice_update_avoids_entry_slice [OF example_wheel_locked_ok NL, of 350 3 8192 True 4096 8192]
  have b: "next_slice_m example_wheel_1 350 3 True = 4"
    using t1 a by (simp add: example_wheel_1_eq)
  have d1: "upd_timer example_wheel_1 8192 350 False 4096 \<noteq> Inl SelfDeadlock"
    using t1 free by blast
  have d2: "upd_timer_m example_wheel_locked 8192 350 True \<noteq> Inl SelfDeadlock"
    using t2 held by blast
  show ?thesis
    by (intro conjI) (rule example_wheel_1_ok N conjunct1 [OF e] conjunct2 [OF e] a b s u um f l d1 d2)+
qed

text \<open>
  C2 as it is stated fails where the 32-bit sum wraps: on the wheel of \<open>2^32 - 1\<close>
  slices of 1 ms, at current slice 2, the timeout \<open>2^32 - 2\<close> gives \<open>k = 2^32 - 2\<close>; the
  formula of the claim gives the candidate \<open>2^32 mod (2^32 - 1) = 1\<close>, the code
  computes \<open>0\<close>.
\<close>

theorem next_slice_candidate_counterexample:
  "tick idle_callbacks big_wheel 2 = Some (Inr big_wheel_2) \<and>
   wheel_ok big_wheel_2 \<and> 2 \<le> unat (nslices_m big_wheel_2) \<and>
   unat (nslices_m big_wheel_2) = 4294967295 \<and> unat (slice_intvl_m big_wheel_2) = 1 \<and>
   unat (curr_slice_m big_wheel_2) = 2 \<and>
   next_slice_m big_wheel_2 4294967294 7 False = 0 \<and>
   next_slice_m big_wheel_2 4294967294 7 True = 0 \<and>
   (2 + max 1 ((4294967294 mod (4294967295 * 1)) div 1)) mod 4294967295 = (1 :: nat) \<and>
   next_slice_spec 4294967295 1 2 4294967294 7 True = 1 \<and>
   unat (next_slice_m big_wheel_2 4294967294 7 True) \<noteq>
     next_slice_spec (unat (nslices_m big_wheel_2)) (unat (slice_intvl_m big_wheel_2))
       (unat (curr_slice_m big_wheel_2)) (unat (4294967294 :: 64 word)) (unat (7 :: 32 word)) True"
proof -
  have t: "tick idle_callbacks big_wheel 2 = Some (Inr big_wheel_2)"
    by (simp add: big_wheel_2_tick big_wheel_2_eq) (simp add: big_wheel_eq)
  have f: "unat (nslices_m big_wheel_2) = 4294967295" "unat (slice_intvl_m big_wheel_2) = 1"
    "unat (curr_slice_m big_wheel_2) = 2"
    by (simp_all add: big_wheel_2_eq)
  have N: "2 \<le> unat (nslices_m big_wheel_2)" by (simp add: f)
  have a: "next_slice_m big_wheel_2 4294967294 7 False = 0"
    "next_slice_m big_wheel_2 4294967294 7 True = 0"
    by (simp_all add: big_wheel_2_eq next_slice_m_def)
  have s: "next_slice_spec 4294967295 1 2 4294967294 7 True = 1"
    by (simp add: next_slice_spec_def)
  have m: "(2 + max 1 ((4294967294 mod (4294967295 * 1)) div 1)) mod 4294967295 = (1 :: nat)"
    by simp
  have ne: "unat (next_slice_m big_wheel_2 4294967294 7 True) \<noteq>
     next_slice_spec (unat (nslices_m big_wheel_2)) (unat (slice_intvl_m big_wheel_2))
       (unat (curr_slice_m big_wheel_2)) (unat (4294967294 :: 64 word)) (unat (7 :: 32 word)) True"
    by (simp add: a f s del: One_nat_def)
  show ?thesis
    by (intro conjI) (rule t big_wheel_2_ok N f a s m ne)+
qed

end
